theory Spec2Isabelle
  imports Main
begin

section \<open>Python values, errors and strings\<close>

text \<open>
  The module \<^verbatim>\<open>chameleon/tal.py\<close> is modelled, as Python 3 runs it. A string is a list
  of characters with code points below 256 (\<^typ>\<open>string\<close>); on them whitespace, digits and
  word characters are what \<^verbatim>\<open>str.strip\<close>, \<^verbatim>\<open>\s\<close>, \<^verbatim>\<open>\d\<close> and \<^verbatim>\<open>\w\<close> take them to be
  for a \<^verbatim>\<open>str\<close>. Every exception the module can raise is a value of \<open>error\<close>; a function
  that may raise returns \<open>error + 'a\<close> with \<open>Inl\<close> for the exception.
\<close>

datatype error =
    TypeError string
  | ValueError string
  | KeyError string
  | LanguageError string string
  | ZeroDivisionError
  | StopIteration

text \<open>
  \<^verbatim>\<open>LanguageError\<close> is the exception of the module \<^verbatim>\<open>exc\<close>, raised with a message
  and the offending text.

  What \<^verbatim>\<open>RepeatDict.__call__\<close> can be handed as \<^verbatim>\<open>iterable\<close>: \<^verbatim>\<open>None\<close>, an object
  that \<^verbatim>\<open>tuple()\<close> can iterate (given by the name of its type and its elements), or an
  object that is not iterable (given by the name of its type).
\<close>

datatype 'a pyobject =
    PyNone
  | PyIterable string "'a list"
  | is_PyNonIterable: PyNonIterable string

fun type_name :: "'a pyobject \<Rightarrow> string" where
  \<comment> \<open>\<^verbatim>\<open>type(obj).__name__\<close>\<close>
  "type_name PyNone = ''NoneType''"
| "type_name (PyIterable tn xs) = tn"
| "type_name (PyNonIterable tn) = tn"

fun elements :: "'a pyobject \<Rightarrow> 'a list" where
  "elements PyNone = []"
| "elements (PyIterable tn xs) = xs"
| "elements (PyNonIterable tn) = []"

definition repr :: "string \<Rightarrow> string" where
  \<comment> \<open>\<^verbatim>\<open>%r\<close> of the name of a type: the name in single quotes.\<close>
  "repr s = [CHR 0x27] @ s @ [CHR 0x27]"

definition tuple :: "'a pyobject \<Rightarrow> error + 'a list" where
  "tuple obj =
     (case obj of
        PyIterable tn xs \<Rightarrow> Inr xs
      | _ \<Rightarrow> Inl (TypeError (repr (type_name obj) @ '' object is not iterable'')))"

definition chr :: "int \<Rightarrow> error + char" where
  \<comment> \<open>\<^verbatim>\<open>chr(n)\<close> on the code points of the model; \<^verbatim>\<open>_letter\<close> calls it below 123 only.
      A number from 256 on has no character here and is given the error of a number
      that is no code point.\<close>
  "chr n = (if 0 \<le> n \<and> n < 256 then Inr (char_of n)
            else Inl (ValueError ''chr() arg not in range(0x110000)''))"

definition ord :: "char \<Rightarrow> int" where
  "ord c = of_char c"

definition str_mul :: "string \<Rightarrow> int \<Rightarrow> string" where
  \<comment> \<open>\<^verbatim>\<open>r * rct\<close>: a count below 1 gives the empty string.\<close>
  "str_mul r n = concat (replicate (nat n) r)"

subsection \<open>String methods\<close>

definition isspace :: "char \<Rightarrow> bool" where
  \<comment> \<open>\<^verbatim>\<open>c.isspace()\<close>: the code points 09 to 0D, 1C to 20, 85 and A0\<close>
  "isspace c = (c \<in> set [CHR 0x09, CHR 0x0A, CHR 0x0B, CHR 0x0C, CHR 0x0D,
                          CHR 0x1C, CHR 0x1D, CHR 0x1E, CHR 0x1F, CHR 0x20,
                          CHR 0x85, CHR 0xA0])"

definition str_strip_chars :: "(char \<Rightarrow> bool) \<Rightarrow> string \<Rightarrow> string" where
  "str_strip_chars P s = rev (dropWhile P (rev (dropWhile P s)))"

definition str_strip :: "string \<Rightarrow> string" where
  \<comment> \<open>\<^verbatim>\<open>s.strip()\<close>\<close>
  "str_strip s = str_strip_chars isspace s"

definition startswith :: "string \<Rightarrow> string \<Rightarrow> bool" where
  "startswith s p = (take (length p) s = p)"

function str_replace :: "string \<Rightarrow> string \<Rightarrow> string \<Rightarrow> string" where
  \<comment> \<open>\<^verbatim>\<open>s.replace(old, new)\<close>: the occurrences of \<open>old\<close> from the left, not overlapping.\<close>
  "str_replace old new [] = (if old = [] then new else [])"
| "str_replace old new (c # cs) =
     (if old = [] then new @ c # str_replace old new cs
      else if startswith (c # cs) old
        then new @ str_replace old new (drop (length old) (c # cs))
      else c # str_replace old new cs)"
  by pat_completeness auto
termination
  by (relation "measure (\<lambda>(old, new, s). length s)") auto

function str_split :: "char \<Rightarrow> string \<Rightarrow> string list" where
  \<comment> \<open>\<^verbatim>\<open>s.split(sep)\<close> for a separator of one character, as at both call sites.\<close>
  "str_split sep s =
     (case dropWhile (\<lambda>c. c \<noteq> sep) s of
        [] \<Rightarrow> [s]
      | _ # rest \<Rightarrow> takeWhile (\<lambda>c. c \<noteq> sep) s # str_split sep rest)"
  by pat_completeness auto
termination
proof (relation "measure (\<lambda>(sep, s). length s)")
  show "wf (measure (\<lambda>(sep, s). length s))" by simp
next
  fix sep :: char and s :: string and x rest
  assume "dropWhile (\<lambda>c. c \<noteq> sep) s = x # rest"
  then have "length (x # rest) \<le> length s"
    using length_dropWhile_le [of "\<lambda>c. c \<noteq> sep" s] by simp
  then show "((sep, rest), (sep, s)) \<in> measure (\<lambda>(sep, s). length s)" by simp
qed

section \<open>Regular expressions\<close>

text \<open>
  The patterns of the module are values of \<open>regex\<close>, and \<open>matches\<close> is the backtracking
  matcher of the \<^verbatim>\<open>re\<close> module on them: it lists the ways a pattern can match a
  prefix of the string, in the order in which backtracking tries them (the left branch
  of an alternative first, a greedy repetition with more rounds first). Each way is the
  rest of the string after the match, with the groups captured on the way. The match
  that \<^verbatim>\<open>re\<close> reports is the first of the list. A round of a repetition that consumes
  no character ends the repetition; no repetition in the patterns of the module has
  such a round.
\<close>

datatype cset =
    Chr char
  | Range char char
  | Space
  | Dot
  | Or cset cset
  | Not cset

fun cset_mem :: "cset \<Rightarrow> char \<Rightarrow> bool" where
  "cset_mem (Chr a) c = (c = a)"
| "cset_mem (Range lo hi) c =
     ((of_char lo :: nat) \<le> of_char c \<and> (of_char c :: nat) \<le> of_char hi)"
| "cset_mem Space c = isspace c"
| "cset_mem Dot c = True"
| "cset_mem (Or a b) c = (cset_mem a c \<or> cset_mem b c)"
| "cset_mem (Not a) c = (\<not> cset_mem a c)"

datatype regex =
    Sym cset
  | Eps
  | Seq regex regex
  | Alt regex regex
  | Star regex
  | Group nat regex
  | EndZ

type_synonym caps = "(nat \<times> string) list"

type_synonym match = "string \<times> caps"

function matches :: "regex \<Rightarrow> string \<Rightarrow> caps \<Rightarrow> match list" where
  "matches (Sym cs) s caps =
     (case s of [] \<Rightarrow> [] | c # rest \<Rightarrow> if cset_mem cs c then [(rest, caps)] else [])"
| "matches Eps s caps = [(s, caps)]"
| "matches (Seq a b) s caps =
     concat (map (\<lambda>m. matches b (fst m) (snd m)) (matches a s caps))"
| "matches (Alt a b) s caps = matches a s caps @ matches b s caps"
| "matches (Star a) s caps =
     concat (map (\<lambda>m. if length (fst m) < length s then matches (Star a) (fst m) (snd m) else [])
               (matches a s caps))
     @ [(s, caps)]"
| "matches (Group n a) s caps =
     map (\<lambda>m. (fst m, (n, take (length s - length (fst m)) s) # snd m)) (matches a s caps)"
| "matches EndZ s caps = (if s = [] then [(s, caps)] else [])"
  by pat_completeness auto
termination
  by (relation "inv_image (less_than <*lex*> less_than) (\<lambda>(r, s, caps). (size r, length s))")
     auto

text \<open>The other operators of the patterns, by the ones above.\<close>

definition Opt :: "regex \<Rightarrow> regex" where
  \<comment> \<open>\<^verbatim>\<open>r?\<close>\<close>
  "Opt r = Alt r Eps"

definition Plus :: "regex \<Rightarrow> regex" where
  \<comment> \<open>\<^verbatim>\<open>r+\<close>\<close>
  "Plus r = Seq r (Star r)"

fun seq :: "regex list \<Rightarrow> regex" where
  "seq [] = Eps"
| "seq [r] = r"
| "seq (r # rs) = Seq r (seq rs)"

definition Lit :: "string \<Rightarrow> regex" where
  "Lit s = seq (map (\<lambda>c. Sym (Chr c)) s)"

fun at_most :: "nat \<Rightarrow> regex \<Rightarrow> regex" where
  "at_most 0 r = Eps"
| "at_most (Suc k) r = Opt (Seq r (at_most k r))"

fun times :: "nat \<Rightarrow> regex \<Rightarrow> regex" where
  "times 0 r = Eps"
| "times (Suc k) r = Seq r (times k r)"

definition Rep :: "regex \<Rightarrow> nat \<Rightarrow> nat \<Rightarrow> regex" where
  \<comment> \<open>\<^verbatim>\<open>r{m,n}\<close>\<close>
  "Rep r m n = Seq (times m r) (at_most (n - m) r)"

definition re_match :: "regex \<Rightarrow> string \<Rightarrow> match option" where
  \<comment> \<open>\<^verbatim>\<open>pattern.match(s)\<close>: the match at the start of \<open>s\<close>, or \<^verbatim>\<open>None\<close>.\<close>
  "re_match r s = (case matches r s [] of [] \<Rightarrow> None | m # _ \<Rightarrow> Some m)"

definition group :: "match \<Rightarrow> nat \<Rightarrow> string option" where
  \<comment> \<open>\<^verbatim>\<open>m.group(n)\<close>: \<^verbatim>\<open>None\<close> for a group that took no part in the match.\<close>
  "group m n = map_of (snd m) n"

function re_sub :: "regex \<Rightarrow> (match \<Rightarrow> string) \<Rightarrow> string \<Rightarrow> string" where
  \<comment> \<open>\<^verbatim>\<open>pattern.sub(repl, s)\<close>: the matches from the left, not overlapping; \<open>repl\<close> gives
      the text that replaces a match.\<close>
  "re_sub r repl [] = (case re_match r [] of None \<Rightarrow> [] | Some m \<Rightarrow> repl m)"
| "re_sub r repl (c # cs) =
     (case re_match r (c # cs) of
        None \<Rightarrow> c # re_sub r repl cs
      | Some m \<Rightarrow>
          if length (fst m) < length (c # cs) then repl m @ re_sub r repl (fst m)
          else repl m @ c # re_sub r repl cs)"
  by pat_completeness auto
termination
  by (relation "measure (\<lambda>(r, repl, s). length s)") auto

subsection \<open>The patterns of the module\<close>

definition digit :: cset where
  \<comment> \<open>\<^verbatim>\<open>\d\<close>: below 256 the decimal digits are 30 to 39\<close>
  "digit = Range CHR ''0'' CHR ''9''"

definition word :: cset where
  \<comment> \<open>\<^verbatim>\<open>\w\<close>: the underscore and the code points that \<^verbatim>\<open>str.isalnum\<close> accepts, which are
      30 to 39, 41 to 5A, 61 to 7A, AA, B2, B3, B5, B9, BA, BC to BE, C0 to D6, D8 to F6
      and F8 to FF\<close>
  "word = Or (Range CHR ''a'' CHR ''z'') (Or (Range CHR ''A'' CHR ''Z'')
            (Or (Range CHR ''0'' CHR ''9'') (Or (Chr CHR ''_'')
            (Or (Chr CHR 0xAA) (Or (Range CHR 0xB2 CHR 0xB3) (Or (Chr CHR 0xB5)
            (Or (Range CHR 0xB9 CHR 0xBA) (Or (Range CHR 0xBC CHR 0xBE)
            (Or (Range CHR 0xC0 CHR 0xD6) (Or (Range CHR 0xD8 CHR 0xF6)
                (Range CHR 0xF8 CHR 0xFF)))))))))))"

definition NAME :: regex where
  \<comment> \<open>\<^verbatim>\<open>[a-zA-Z_][-a-zA-Z0-9_]*\<close>\<close>
  "NAME =
     Seq (Sym (Or (Range CHR ''a'' CHR ''z'') (Or (Range CHR ''A'' CHR ''Z'') (Chr CHR ''_''))))
         (Star (Sym (Or (Chr CHR ''-'') (Or (Range CHR ''a'' CHR ''z'')
            (Or (Range CHR ''A'' CHR ''Z'') (Or (Range CHR ''0'' CHR ''9'') (Chr CHR ''_'')))))))"

definition DEFINE_RE :: regex where
  \<comment> \<open>\<^verbatim>\<open>(?s)\s*(?:(global|local)\s+)?(NAME|\(NAME(?:,\s*NAME)*\))\s+(.*)\Z\<close>\<close>
  "DEFINE_RE =
     seq [Star (Sym Space),
          Opt (Seq (Group 1 (Alt (Lit ''global'') (Lit ''local''))) (Plus (Sym Space))),
          Group 2 (Alt NAME
                       (seq [Sym (Chr CHR ''(''), NAME,
                             Star (seq [Sym (Chr CHR '',''), Star (Sym Space), NAME]),
                             Sym (Chr CHR '')'')])),
          Plus (Sym Space),
          Group 3 (Star (Sym Dot)),
          EndZ]"

definition ATTR_RE :: regex where
  \<comment> \<open>\<^verbatim>\<open>\s*([^\s]+)\s+([^\s].*)\Z\<close> with \<^verbatim>\<open>re.S\<close>\<close>
  "ATTR_RE =
     seq [Star (Sym Space),
          Group 1 (Plus (Sym (Not Space))),
          Plus (Sym Space),
          Group 2 (Seq (Sym (Not Space)) (Star (Sym Dot))),
          EndZ]"

definition ENTITY_RE :: regex where
  \<comment> \<open>\<^verbatim>\<open>(&(#?)(x?)(\d{1,5}|\w{1,8});)\<close>\<close>
  "ENTITY_RE =
     Group 1 (seq [Sym (Chr CHR ''&''),
                   Group 2 (Opt (Sym (Chr CHR ''#''))),
                   Group 3 (Opt (Sym (Chr CHR ''x''))),
                   Group 4 (Alt (Rep (Sym digit) 1 5) (Rep (Sym word) 1 8)),
                   Sym (Chr CHR '';'')])"

text \<open>
  \<^verbatim>\<open>m.groups()\<close> of a match of \<^verbatim>\<open>ATTR_RE\<close> and \<^verbatim>\<open>m.group(1, 2, 3)\<close> of a match of
  \<^verbatim>\<open>DEFINE_RE\<close>. Only the first group of \<^verbatim>\<open>DEFINE_RE\<close> can be \<^verbatim>\<open>None\<close>: the other
  groups take part in every match (\<open>ATTR_RE_match_None\<close>, \<open>DEFINE_RE_match_None\<close> below),
  so these functions give \<open>None\<close> exactly when the pattern does not match.
\<close>

definition ATTR_RE_match :: "string \<Rightarrow> (string \<times> string) option" where
  "ATTR_RE_match s =
     (case re_match ATTR_RE s of
        None \<Rightarrow> None
      | Some m \<Rightarrow>
          (case (group m 1, group m 2) of
             (Some name, Some expr) \<Rightarrow> Some (name, expr)
           | _ \<Rightarrow> None))"

definition DEFINE_RE_match :: "string \<Rightarrow> (string option \<times> string \<times> string) option" where
  "DEFINE_RE_match s =
     (case re_match DEFINE_RE s of
        None \<Rightarrow> None
      | Some m \<Rightarrow>
          (case (group m 2, group m 3) of
             (Some name, Some expr) \<Rightarrow> Some (group m 1, name, expr)
           | _ \<Rightarrow> None))"

section \<open>The clause parsers\<close>

definition split_parts :: "string \<Rightarrow> string list" where
  "split_parts arg =
     (let arg = re_sub ENTITY_RE (\<lambda>m. (case group m 1 of Some g \<Rightarrow> g | None \<Rightarrow> []) @ '';'') arg;
          arg = str_replace '';;'' [CHR 0x00] arg;
          parts = str_split CHR '';'' arg;
          parts = map (str_replace [CHR 0x00] '';'') parts
      in if length parts > 1 \<and> str_strip (last parts) = [] then butlast parts else parts)"

text \<open>
  A \<^verbatim>\<open>dict\<close> is the list of its items in the order of insertion; storing under a key
  that is present replaces the value where it stands. This is the order that an
  \<^verbatim>\<open>OrderedDict\<close> keeps, and a plain \<^verbatim>\<open>dict\<close> from Python 3.7 on; an older plain
  \<^verbatim>\<open>dict\<close> holds the same items and promises no order.
\<close>

fun dict_set :: "('k \<times> 'v) list \<Rightarrow> 'k \<Rightarrow> 'v \<Rightarrow> ('k \<times> 'v) list" where
  "dict_set [] k v = [(k, v)]"
| "dict_set ((k', v') # d) k v = (if k' = k then (k, v) # d else (k', v') # dict_set d k v)"

fun parse_attributes_loop ::
  "string \<Rightarrow> string list \<Rightarrow> (string \<times> string) list \<Rightarrow> error + (string \<times> string) list" where
  "parse_attributes_loop clause [] attrs = Inr attrs"
| "parse_attributes_loop clause (part # parts) attrs =
     (case ATTR_RE_match part of
        None \<Rightarrow> Inl (LanguageError ''Bad syntax in attributes.'' clause)
      | Some (name, expr) \<Rightarrow>
          if name \<in> fst ` set attrs
          then Inl (LanguageError ''Duplicate attribute name in attributes.'' part)
          else parse_attributes_loop clause parts (dict_set attrs name expr))"

definition parse_attributes :: "string \<Rightarrow> error + (string \<times> string) list" where
  "parse_attributes clause = parse_attributes_loop clause (split_parts clause) []"

text \<open>
  The names of a define are a tuple for the bare form and a list for the form in
  parentheses.
\<close>

datatype names = PyTuple "string list" | PyList "string list"

fun parse_defines_loop ::
  "string list \<Rightarrow> (string \<times> names \<times> string) list \<Rightarrow> (string \<times> names \<times> string) list option" where
  "parse_defines_loop [] defines = Some defines"
| "parse_defines_loop (part # parts) defines =
     (case DEFINE_RE_match part of
        None \<Rightarrow> None
      | Some (context, name, expr) \<Rightarrow>
          (let context = (case context of
                            None \<Rightarrow> ''local''
                          | Some c \<Rightarrow> if c = [] then ''local'' else c);
               names = (if startswith name ''(''
                        then PyList (map str_strip
                               (str_split CHR '','' (str_strip_chars (\<lambda>c. c \<in> set ''()'') name)))
                        else PyTuple [name])
           in parse_defines_loop parts (defines @ [(context, names, expr)])))"

definition parse_defines :: "string \<Rightarrow> (string \<times> names \<times> string) list option" where
  \<comment> \<open>\<open>None\<close> is the \<^verbatim>\<open>None\<close> of the bare \<^verbatim>\<open>return\<close>.\<close>
  "parse_defines clause = parse_defines_loop (split_parts clause) []"

section \<open>Merging static and dynamic attributes\<close>

record attribute =
  attr_name :: string
  attr_value :: string
  attr_quote :: string
  attr_space :: string
  attr_eq :: string

type_synonym prepared = "string option \<times> string \<times> string \<times> string \<times> string option"

text \<open>
  The constant \<^verbatim>\<open>XMLNS_NS\<close> comes from the module \<^verbatim>\<open>namespaces\<close>; it is the first
  argument here. \<^verbatim>\<open>dyn_attributes\<close> is the list of its items, in the order in which
  \<^verbatim>\<open>items()\<close> gives them. The set \<^verbatim>\<open>drop\<close> of the source is \<open>dropped\<close>.
\<close>

fun static_loop ::
  "string set \<Rightarrow> attribute list \<Rightarrow> (string \<times> prepared) list \<Rightarrow> (string \<times> prepared) list" where
  \<comment> \<open>\<^verbatim>\<open>for attribute in attrs\<close>\<close>
  "static_loop dropped [] attributes = attributes"
| "static_loop dropped (attribute # attrs) attributes =
     (let name = attr_name attribute
      in if name \<in> dropped then static_loop dropped attrs attributes
         else static_loop dropped attrs
                (dict_set attributes name
                   (Some (attr_value attribute), attr_quote attribute,
                    attr_space attribute, attr_eq attribute, None)))"

fun dynamic_loop ::
  "(string \<times> string) list \<Rightarrow> (string \<times> prepared) list \<Rightarrow> (string \<times> prepared) list" where
  \<comment> \<open>\<^verbatim>\<open>for name, expr in dyn_attributes.items()\<close>\<close>
  "dynamic_loop [] attributes = attributes"
| "dynamic_loop ((name, expr) # items) attributes =
     (let (text, quote, space, eq) =
            (case map_of attributes name of
               Some (text, quote, space, eq, ignore) \<Rightarrow> (text, quote, space, eq)
             | None \<Rightarrow> (None, [CHR 0x22], '' '', ''=''))
      in dynamic_loop items (dict_set attributes name (text, quote, space, eq, Some expr)))"

definition prepare_attributes ::
  "string \<Rightarrow> attribute list \<Rightarrow> (string \<times> string) list \<Rightarrow> (string \<times> string) list \<Rightarrow>
   string set \<Rightarrow> (string \<times> prepared) list" where
  "prepare_attributes XMLNS_NS attrs dyn_attributes ns_attributes drop_ns =
     (let dropped = set (map (\<lambda>(attribute, (ns, value)). attr_name attribute)
                      (filter (\<lambda>(attribute, (ns, value)).
                                 ns \<in> drop_ns \<or>
                                 (ns = XMLNS_NS \<and> attr_value attribute \<in> drop_ns))
                         (zip attrs ns_attributes)));
          attributes = static_loop dropped attrs []
      in dynamic_loop dyn_attributes attributes)"

section \<open>The repeat runtime: cursors, RepeatItem, RepeatDict\<close>

text \<open>
  Objects with identity live in a store. A cursor is a tuple iterator: the store holds the
  elements it has not yet produced, so \<^verbatim>\<open>__len__\<close> (\<^verbatim>\<open>__length_hint__\<close>) of the
  iterator is the length of that list. A \<^verbatim>\<open>RepeatItem\<close> holds \<^verbatim>\<open>length\<close> and a reference
  to its cursor (\<^verbatim>\<open>_iterator\<close>), never a copy. The \<^verbatim>\<open>RepeatDict\<close> maps a key to the
  triple \<^verbatim>\<open>(iterator, length, repeat)\<close>, where \<^verbatim>\<open>repeat\<close> is \<^verbatim>\<open>None\<close> or a reference
  to the cached \<^verbatim>\<open>RepeatItem\<close>.
\<close>

type_synonym ref = nat

record RepeatItem =
  length_ri :: int
  iterator_ri :: ref

record 'a state =
  cursors :: "ref \<Rightarrow> 'a list"
  next_cursor :: ref
  items :: "ref \<rightharpoonup> RepeatItem"
  next_item :: ref
  dict :: "string \<rightharpoonup> (ref \<times> int \<times> ref option)"

definition empty_state :: "'a state" where
  "empty_state = \<lparr>cursors = (\<lambda>_. []), next_cursor = 0, items = Map.empty, next_item = 0,
                   dict = Map.empty\<rparr>"

definition iter :: "'a state \<Rightarrow> 'a list \<Rightarrow> ref \<times> 'a state" where
  \<comment> \<open>\<^verbatim>\<open>iter(iterable)\<close> on a tuple: a new cursor at the start of the tuple.\<close>
  "iter st xs =
     (next_cursor st,
      st\<lparr>cursors := (cursors st)(next_cursor st := xs), next_cursor := Suc (next_cursor st)\<rparr>)"

definition cursor_next :: "'a state \<Rightarrow> ref \<Rightarrow> (error + 'a) \<times> 'a state" where
  \<comment> \<open>\<^verbatim>\<open>next(iterator)\<close>, the advancement done by the rendering loop.\<close>
  "cursor_next st c =
     (case cursors st c of
        [] \<Rightarrow> (Inl StopIteration, st)
      | x # xs \<Rightarrow> (Inr x, st\<lparr>cursors := (cursors st)(c := xs)\<rparr>))"

definition RepeatItem_init :: "'a state \<Rightarrow> ref \<Rightarrow> int \<Rightarrow> ref \<times> 'a state" where
  \<comment> \<open>\<^verbatim>\<open>RepeatItem(iterator, length)\<close>: a new instance.\<close>
  "RepeatItem_init st iterator len =
     (next_item st,
      st\<lparr>items := (items st)(next_item st \<mapsto> \<lparr>length_ri = len, iterator_ri = iterator\<rparr>),
         next_item := Suc (next_item st)\<rparr>)"

definition index :: "'a state \<Rightarrow> RepeatItem \<Rightarrow> int" where
  "index st self =
     (let remaining = int (length (cursors st (iterator_ri self)))
      in length_ri self - remaining - 1)"

definition start :: "'a state \<Rightarrow> RepeatItem \<Rightarrow> bool" where
  "start st self = (index st self = 0)"

definition end_ri :: "'a state \<Rightarrow> RepeatItem \<Rightarrow> bool" where
  "end_ri st self = (index st self = length_ri self - 1)"

text \<open>
  Modelled from the spec: the decorators \<^verbatim>\<open>descriptorint\<close> and \<^verbatim>\<open>descriptorstr\<close> come
  from the module \<^verbatim>\<open>utils\<close>, which is not among the sources. The specification takes
  them as giving, when the property is read, the value of the decorated function as an
  integer or as a string.
\<close>

definition descriptorint :: "('a state \<Rightarrow> RepeatItem \<Rightarrow> 'v) \<Rightarrow> 'a state \<Rightarrow> RepeatItem \<Rightarrow> 'v" where
  \<comment> \<open>Modelled from the spec: reading the property gives the value of the function.\<close>
  "descriptorint function = function"

definition descriptorstr :: "('a state \<Rightarrow> RepeatItem \<Rightarrow> 'v) \<Rightarrow> 'a state \<Rightarrow> RepeatItem \<Rightarrow> 'v" where
  \<comment> \<open>Modelled from the spec: reading the property gives the value of the function.\<close>
  "descriptorstr function = function"

definition number :: "'a state \<Rightarrow> RepeatItem \<Rightarrow> int" where
  "number = descriptorint (\<lambda>st self. index st self + 1)"

definition odd_ri :: "'a state \<Rightarrow> RepeatItem \<Rightarrow> string" where
  "odd_ri = descriptorstr (\<lambda>st self. if index st self mod 2 = 1 then ''odd'' else [])"

definition even_ri :: "'a state \<Rightarrow> RepeatItem \<Rightarrow> string" where
  "even_ri = descriptorstr (\<lambda>st self. if index st self mod 2 = 0 then ''even'' else [])"

text \<open>
  The \<^verbatim>\<open>while 1\<close> loop of \<^verbatim>\<open>_letter\<close>. It has no bound of its own (with \<^verbatim>\<open>radix = 1\<close>
  it never returns), so not returning is the value \<open>None\<close>.
\<close>

partial_function (option) letter_loop ::
  "int \<Rightarrow> int \<Rightarrow> int \<Rightarrow> string \<Rightarrow> (error + string) option" where
  "letter_loop base radix i s =
     (if radix = 0 then Some (Inl ZeroDivisionError)
      else (case chr (base + i mod radix) of
              Inl e \<Rightarrow> Some (Inl e)
            | Inr c \<Rightarrow> if i div radix = 0 then Some (Inr (c # s))
                       else letter_loop base radix (i div radix) (c # s)))"

definition letter_base :: "'a state \<Rightarrow> RepeatItem \<Rightarrow> int \<Rightarrow> int \<Rightarrow> (error + string) option" where
  \<comment> \<open>\<^verbatim>\<open>_letter(self, base, radix)\<close>\<close>
  "letter_base st self base radix =
     (let i = index st self
      in if i < 0 then Some (Inl (TypeError ''No iteration position''))
         else letter_loop base radix i [])"

definition letter :: "'a state \<Rightarrow> RepeatItem \<Rightarrow> (error + string) option" where
  \<comment> \<open>\<^verbatim>\<open>letter = descriptorstr(_letter)\<close>, with the defaults of \<^verbatim>\<open>base\<close> and \<^verbatim>\<open>radix\<close>\<close>
  "letter = descriptorstr (\<lambda>st self. letter_base st self (ord CHR ''a'') 26)"

definition Letter :: "'a state \<Rightarrow> RepeatItem \<Rightarrow> (error + string) option" where
  "Letter = descriptorstr (\<lambda>st self. letter_base st self (ord CHR ''A'') 26)"

fun Roman_loop :: "(int \<times> string) list \<Rightarrow> int \<Rightarrow> string \<Rightarrow> error + string" where
  \<comment> \<open>\<^verbatim>\<open>for v, r in rnvalues\<close>\<close>
  "Roman_loop [] n s = Inr s"
| "Roman_loop ((v, r) # rnvalues) n s =
     (if v = 0 then Inl ZeroDivisionError
      else Roman_loop rnvalues (n mod v) (s @ str_mul r (n div v)))"

definition rnvalues :: "(int \<times> string) list" where
  "rnvalues =
     [(1000, ''M''), (900, ''CM''), (500, ''D''), (400, ''CD''),
      (100, ''C''), (90, ''XC''), (50, ''L''), (40, ''XL''),
      (10, ''X''), (9, ''IX''), (5, ''V''), (4, ''IV''), (1, ''I'')]"

definition Roman :: "'a state \<Rightarrow> RepeatItem \<Rightarrow> error + string" where
  "Roman = descriptorstr (\<lambda>st self. Roman_loop rnvalues (index st self + 1) [])"

definition RepeatDict_call ::
  "'a state \<Rightarrow> string \<Rightarrow> 'a pyobject \<Rightarrow> (error + ref \<times> int) \<times> 'a state" where
  \<comment> \<open>\<^verbatim>\<open>RepeatDict.__call__(self, key, iterable)\<close>\<close>
  "RepeatDict_call st key iterable =
     (case (case tuple iterable of
              Inr xs \<Rightarrow> Inr xs
            | Inl e \<Rightarrow>
                if iterable = PyNone then Inr []
                else Inl (TypeError (repr (type_name iterable) @ '' object is not iterable'')))
      of
        Inl e \<Rightarrow> (Inl e, st)
      | Inr xs \<Rightarrow>
          (let len = int (length xs);
               (iterator, st1) = iter st xs;
               st2 = st1\<lparr>dict := (dict st1)(key \<mapsto> (iterator, len, None))\<rparr>
           in (Inr (iterator, len), st2)))"

definition RepeatDict_getitem :: "'a state \<Rightarrow> string \<Rightarrow> (error + ref) \<times> 'a state" where
  \<comment> \<open>\<^verbatim>\<open>RepeatDict.__getitem__(self, key)\<close>\<close>
  "RepeatDict_getitem st key =
     (case dict st key of
        None \<Rightarrow> (Inl (KeyError key), st)
      | Some (iterator, len, repeat) \<Rightarrow>
          (case repeat of
             None \<Rightarrow>
               (let (r, st1) = RepeatItem_init st iterator len;
                    st2 = st1\<lparr>dict := (dict st1)(key \<mapsto> (iterator, len, Some r))\<rparr>
                in (Inr r, st2))
           | Some r \<Rightarrow> (Inr r, st)))"

section \<open>Notions used in the proofs\<close>

text \<open>
  The language of a pattern (the strings it can consume, anchors aside), the patterns
  without \<^verbatim>\<open>\Z\<close>, and the groups that take part in every match of a pattern.
\<close>

inductive_set star :: "string set \<Rightarrow> string set" for A :: "string set" where
  star_Nil: "[] \<in> star A"
| star_App: "x \<in> A \<Longrightarrow> y \<in> star A \<Longrightarrow> x @ y \<in> star A"

fun lang :: "regex \<Rightarrow> string set" where
  "lang (Sym cs) = {[c] | c. cset_mem cs c}"
| "lang Eps = {[]}"
| "lang (Seq a b) = {x @ y | x y. x \<in> lang a \<and> y \<in> lang b}"
| "lang (Alt a b) = lang a \<union> lang b"
| "lang (Star a) = star (lang a)"
| "lang (Group n a) = lang a"
| "lang EndZ = {[]}"

fun no_EndZ :: "regex \<Rightarrow> bool" where
  "no_EndZ (Sym cs) = True"
| "no_EndZ Eps = True"
| "no_EndZ (Seq a b) = (no_EndZ a \<and> no_EndZ b)"
| "no_EndZ (Alt a b) = (no_EndZ a \<and> no_EndZ b)"
| "no_EndZ (Star a) = no_EndZ a"
| "no_EndZ (Group n a) = no_EndZ a"
| "no_EndZ EndZ = False"

fun must_bind :: "regex \<Rightarrow> nat set" where
  "must_bind (Sym cs) = {}"
| "must_bind Eps = {}"
| "must_bind (Seq a b) = must_bind a \<union> must_bind b"
| "must_bind (Alt a b) = must_bind a \<inter> must_bind b"
| "must_bind (Star a) = {}"
| "must_bind (Group n a) = insert n (must_bind a)"
| "must_bind EndZ = {}"


fun chars_ok :: "(char \<Rightarrow> bool) \<Rightarrow> regex \<Rightarrow> bool" where
  "chars_ok P (Sym cs) = (\<forall>c. cset_mem cs c \<longrightarrow> P c)"
| "chars_ok P Eps = True"
| "chars_ok P (Seq a b) = (chars_ok P a \<and> chars_ok P b)"
| "chars_ok P (Alt a b) = (chars_ok P a \<and> chars_ok P b)"
| "chars_ok P (Star a) = chars_ok P a"
| "chars_ok P (Group n a) = chars_ok P a"
| "chars_ok P EndZ = True"

fun has_entity :: "string \<Rightarrow> bool" where
  "has_entity [] = False"
| "has_entity (c # cs) = (re_match ENTITY_RE (c # cs) \<noteq> None \<or> has_entity cs)"


text \<open>
  A character entity, as the splitter sees it: a string that \<^verbatim>\<open>ENTITY_RE\<close> matches as a
  whole. \<open>has_entity\<close> says that \<^verbatim>\<open>ENTITY_RE\<close> matches somewhere in a string. A plain
  character is neither a semicolon, nor an ampersand, nor the NUL character.
\<close>

definition is_entity :: "string \<Rightarrow> bool" where
  "is_entity e = ([] \<in> fst ` set (matches ENTITY_RE e []))"

definition plain_char :: "char \<Rightarrow> bool" where
  "plain_char c = (c \<noteq> CHR '';'' \<and> c \<noteq> CHR 0x00 \<and> c \<noteq> CHR ''&'')"

fun ends_EndZ :: "regex \<Rightarrow> bool" where
  "ends_EndZ EndZ = True"
| "ends_EndZ (Seq a b) = ends_EndZ b"
| "ends_EndZ _ = False"

text \<open>
  A character entity in the words of the specification: an ampersand, an optional
  \<^verbatim>\<open>#\<close>, an optional \<^verbatim>\<open>x\<close>, one to five digits or one to eight word characters, and a
  semicolon.
\<close>

definition entity_shape :: "string \<Rightarrow> bool" where
  "entity_shape e \<longleftrightarrow>
     (\<exists>h x body.
        e = ''&'' @ h @ x @ body @ '';'' \<and> (h = [] \<or> h = ''#'') \<and> (x = [] \<or> x = ''x'') \<and>
        ((1 \<le> length body \<and> length body \<le> 5 \<and> (\<forall>c\<in>set body. cset_mem digit c)) \<or>
         (1 \<le> length body \<and> length body \<le> 8 \<and> (\<forall>c\<in>set body. cset_mem word c))))"

text \<open>
  The two halves of \<^verbatim>\<open>split_parts\<close>: \<open>raw_parts\<close> is the value of \<^verbatim>\<open>parts\<close> after the
  first four assignments, and \<open>drop_blank\<close> is the deletion of a blank last part that
  follows them. \<open>glue ps m qs\<close> is the list \<open>ps\<close> followed by the list \<open>qs\<close>, with the
  last of \<open>ps\<close>, the text \<open>m\<close> and the first of \<open>qs\<close> joined into one part.
\<close>

definition raw_parts :: "string \<Rightarrow> string list" where
  "raw_parts arg =
     map (str_replace [CHR 0x00] '';'')
       (str_split CHR '';''
          (str_replace '';;'' [CHR 0x00]
             (re_sub ENTITY_RE (\<lambda>m. (case group m 1 of Some g \<Rightarrow> g | None \<Rightarrow> []) @ '';'') arg)))"

definition drop_blank :: "string list \<Rightarrow> string list" where
  "drop_blank parts =
     (if length parts > 1 \<and> str_strip (last parts) = [] then butlast parts else parts)"

definition glue :: "string list \<Rightarrow> string \<Rightarrow> string list \<Rightarrow> string list" where
  "glue ps m qs = butlast ps @ [last ps @ m @ hd qs] @ tl qs"

text \<open>
  The shape of a part of an \<^verbatim>\<open>attributes\<close> clause in the words of the specification:
  optional leading whitespace, a name of characters that are not whitespace, at least one
  whitespace character, then an expression of at least one character up to the end.
\<close>

definition attr_shape :: "string \<Rightarrow> bool" where
  "attr_shape part \<longleftrightarrow>
     (\<exists>ws name ws' expr.
        part = ws @ name @ ws' @ expr \<and>
        (\<forall>c\<in>set ws. isspace c) \<and>
        name \<noteq> [] \<and> (\<forall>c\<in>set name. \<not> isspace c) \<and>
        ws' \<noteq> [] \<and> (\<forall>c\<in>set ws'. isspace c) \<and>
        expr \<noteq> [])"

text \<open>
  The triple that the loop of \<^verbatim>\<open>parse_defines\<close> appends for the groups of a match.
\<close>

definition define_of :: "string option \<times> string \<times> string \<Rightarrow> string \<times> names \<times> string" where
  "define_of g =
     (case g of (context, name, expr) \<Rightarrow>
        ((case context of None \<Rightarrow> ''local'' | Some c \<Rightarrow> if c = [] then ''local'' else c),
         (if startswith name ''(''
          then PyList (map str_strip
                 (str_split CHR '','' (str_strip_chars (\<lambda>c. c \<in> set ''()'') name)))
          else PyTuple [name]),
         expr))"

section \<open>Properties of the matcher\<close>

text \<open>
  The equation of \<open>matches\<close> for a repetition unfolds itself; it is applied by hand.
\<close>

declare matches.simps(5) [simp del]

lemma set_matches_Star:
  "set (matches (Star a) s caps) =
     (\<Union>m\<in>set (matches a s caps).
        if length (fst m) < length s then set (matches (Star a) (fst m) (snd m)) else {})
     \<union> {(s, caps)}"
  by (subst matches.simps(5)) (simp only: set_append set_concat set_map, auto)

lemma matches_sound:
  "m \<in> set (matches r s caps) \<Longrightarrow> \<exists>p. s = p @ fst m \<and> p \<in> lang r"
proof (induction r s caps arbitrary: m rule: matches.induct)
  case (1 cs s caps)
  then show ?case by (cases s) (auto split: if_splits)
next
  case (2 s caps)
  then show ?case by simp
next
  case (3 a b s caps)
  from "3.prems" obtain m1 where m1: "m1 \<in> set (matches a s caps)"
    and m: "m \<in> set (matches b (fst m1) (snd m1))" by auto
  from "3.IH"(1) [OF m1] obtain p where p: "s = p @ fst m1" "p \<in> lang a" by blast
  from "3.IH"(2) [OF m1 m] obtain q where q: "fst m1 = q @ fst m" "q \<in> lang b" by blast
  from p q have "s = (p @ q) @ fst m \<and> p @ q \<in> lang (Seq a b)" by auto
  then show ?case by blast
next
  case (4 a b s caps)
  from "4.prems" consider "m \<in> set (matches a s caps)" | "m \<in> set (matches b s caps)"
    by auto
  then show ?case
  proof cases
    case 1
    from "4.IH"(1) [OF 1] show ?thesis by auto
  next
    case 2
    from "4.IH"(2) [OF 2] show ?thesis by auto
  qed
next
  case (5 a s caps)
  show ?case
  proof (cases "m = (s, caps)")
    case True
    then show ?thesis by (auto intro: star.intros)
  next
    case False
    with "5.prems" obtain m1 where m1: "m1 \<in> set (matches a s caps)"
      and lt: "length (fst m1) < length s"
      and m: "m \<in> set (matches (Star a) (fst m1) (snd m1))"
      by (auto simp: set_matches_Star [of a s caps] split: if_splits)
    from "5.IH"(1) [OF m1] obtain p where p: "s = p @ fst m1" "p \<in> lang a" by blast
    from "5.IH"(2) [OF m1 lt m] obtain q where q: "fst m1 = q @ fst m" "q \<in> star (lang a)"
      by auto
    from p q have "s = (p @ q) @ fst m \<and> p @ q \<in> lang (Star a)"
      by (auto intro: star.intros)
    then show ?thesis by blast
  qed
next
  case (6 n a s caps)
  then show ?case by auto
next
  case (7 s caps)
  then show ?case by (auto split: if_splits)
qed

lemma matches_extend:
  "no_EndZ r \<Longrightarrow> (s', c') \<in> set (matches r s caps) \<Longrightarrow>
   (s' @ w, c') \<in> set (matches r (s @ w) caps)"
proof (induction r s caps arbitrary: s' c' rule: matches.induct)
  case (1 cs s caps)
  then show ?case by (cases s) (auto split: if_splits)
next
  case (2 s caps)
  then show ?case by simp
next
  case (3 a b s caps)
  from "3.prems" obtain m1 where m1: "m1 \<in> set (matches a s caps)"
    and m: "(s', c') \<in> set (matches b (fst m1) (snd m1))" by auto
  from "3.prems" have na: "no_EndZ a" and nb: "no_EndZ b" by simp_all
  from "3.IH"(1) [OF na, of "fst m1" "snd m1"] m1
  have e1: "(fst m1 @ w, snd m1) \<in> set (matches a (s @ w) caps)" by simp
  from "3.IH"(2) [OF m1 nb m]
  have e2: "(s' @ w, c') \<in> set (matches b (fst m1 @ w) (snd m1))" .
  from e1 have "(fst m1 @ w, snd m1) \<in> set (matches a (s @ w) caps)" .
  with e2 have "\<exists>m\<in>set (matches a (s @ w) caps). (s' @ w, c') \<in> set (matches b (fst m) (snd m))"
    by (intro bexI [of _ "(fst m1 @ w, snd m1)"]) simp_all
  then show ?case by simp
next
  case (4 a b s caps)
  then show ?case by auto
next
  case (5 a s caps)
  show ?case
  proof (cases "(s', c') = (s, caps)")
    case True
    then show ?thesis by (simp add: set_matches_Star [of a s caps] set_matches_Star [of a "s @ w" caps])
  next
    case False
    with "5.prems" obtain m1 where m1: "m1 \<in> set (matches a s caps)"
      and lt: "length (fst m1) < length s"
      and m: "(s', c') \<in> set (matches (Star a) (fst m1) (snd m1))"
      by (auto simp: set_matches_Star [of a s caps] split: if_splits)
    from "5.prems" have na: "no_EndZ a" by simp
    from "5.IH"(1) [OF na, of "fst m1" "snd m1"] m1
    have e1: "(fst m1 @ w, snd m1) \<in> set (matches a (s @ w) caps)" by simp
    from "5.IH"(2) [OF m1 lt "5.prems"(1) m]
    have e2: "(s' @ w, c') \<in> set (matches (Star a) (fst m1 @ w) (snd m1))" .
    from lt have lt': "length (fst m1 @ w) < length (s @ w)" by simp
    have "(s' @ w, c') \<in> (\<Union>m\<in>set (matches a (s @ w) caps).
             if length (fst m) < length (s @ w) then set (matches (Star a) (fst m) (snd m)) else {})"
      by (rule UN_I [OF e1]) (use e2 lt' in simp)
    then show ?thesis by (subst set_matches_Star) (rule UnI1)
  qed
next
  case (6 n a s caps)
  from "6.prems" obtain m1 where m1: "m1 \<in> set (matches a s caps)"
    and s': "s' = fst m1" and c': "c' = (n, take (length s - length (fst m1)) s) # snd m1"
    by auto
  from "6.prems" have na: "no_EndZ a" by simp
  from "6.IH" [OF na, of "fst m1" "snd m1"] m1
  have e1: "(fst m1 @ w, snd m1) \<in> set (matches a (s @ w) caps)" by simp
  from matches_sound [OF m1] obtain p where "s = p @ fst m1" by blast
  then have "take (length (s @ w) - length (fst m1 @ w)) (s @ w) = take (length s - length (fst m1)) s"
    by simp
  with e1 s' c' show ?case
    by (simp only: matches.simps set_map) (rule image_eqI [of _ _ "(fst m1 @ w, snd m1)"], simp_all)
next
  case (7 s caps)
  then show ?case by simp
qed

lemma matches_binds:
  "m \<in> set (matches r s caps) \<Longrightarrow>
   dom (map_of caps) \<union> must_bind r \<subseteq> dom (map_of (snd m))"
proof (induction r s caps arbitrary: m rule: matches.induct)
  case (1 cs s caps)
  then show ?case by (cases s) (auto split: if_splits)
next
  case (2 s caps)
  then show ?case by simp
next
  case (3 a b s caps)
  from "3.prems" obtain m1 where m1: "m1 \<in> set (matches a s caps)"
    and m: "m \<in> set (matches b (fst m1) (snd m1))" by auto
  from "3.IH"(1) [OF m1] "3.IH"(2) [OF m1 m] show ?case
    by (simp only: must_bind.simps) blast
next
  case (4 a b s caps)
  from "4.prems" consider "m \<in> set (matches a s caps)" | "m \<in> set (matches b s caps)"
    by auto
  then show ?case
  proof cases
    case 1
    from "4.IH"(1) [OF 1] show ?thesis by (simp only: must_bind.simps) blast
  next
    case 2
    from "4.IH"(2) [OF 2] show ?thesis by (simp only: must_bind.simps) blast
  qed
next
  case (5 a s caps)
  show ?case
  proof (cases "m = (s, caps)")
    case True
    then show ?thesis by (simp add: set_matches_Star [of a s caps] set_matches_Star [of a "s @ w" caps])
  next
    case False
    with "5.prems" obtain m1 where m1: "m1 \<in> set (matches a s caps)"
      and lt: "length (fst m1) < length s"
      and m: "m \<in> set (matches (Star a) (fst m1) (snd m1))"
      by (auto simp: set_matches_Star [of a s caps] split: if_splits)
    from "5.IH"(1) [OF m1] "5.IH"(2) [OF m1 lt m] show ?thesis
      by (simp only: must_bind.simps) blast
  qed
next
  case (6 n a s caps)
  from "6.prems" obtain m1 where m1: "m1 \<in> set (matches a s caps)"
    and m: "snd m = (n, take (length s - length (fst m1)) s) # snd m1" by auto
  from "6.IH" [OF m1] m show ?case by auto
next
  case (7 s caps)
  then show ?case by (auto split: if_splits)
qed

section \<open>Properties of the string methods\<close>

declare str_split.simps [simp del]

lemma str_split_none: "sep \<notin> set s \<Longrightarrow> str_split sep s = [s]"
proof -
  assume "sep \<notin> set s"
  then have d: "dropWhile (\<lambda>c. c \<noteq> sep) s = []" by auto
  show ?thesis by (subst str_split.simps) (simp only: d list.case)
qed

lemma str_split_first:
  assumes "sep \<notin> set a"
  shows "str_split sep (a @ sep # t) = a # str_split sep t"
proof -
  from assms have n: "\<forall>x\<in>set a. x \<noteq> sep" by auto
  then have d: "dropWhile (\<lambda>c. c \<noteq> sep) (a @ sep # t) = sep # t"
    by (simp add: dropWhile_append3)
  from n have t: "takeWhile (\<lambda>c. c \<noteq> sep) (a @ sep # t) = a"
    by (simp add: takeWhile_append2)
  show ?thesis by (subst str_split.simps) (simp only: d t list.case)
qed

lemma str_replace_char:
  "str_replace [a] [b] s = map (\<lambda>c. if c = a then b else c) s"
  by (induction s) (simp_all add: startswith_def)

lemma str_replace_semis_prefix:
  "CHR '';'' \<notin> set a \<Longrightarrow> str_replace '';;'' z (a @ t) = a @ str_replace '';;'' z t"
  by (induction a) (auto simp: startswith_def)

lemma str_replace_semis_none:
  "CHR '';'' \<notin> set a \<Longrightarrow> str_replace '';;'' z a = a"
  using str_replace_semis_prefix [of a z "[]"] by simp

lemma str_replace_semis_single:
  "CHR '';'' \<notin> set b \<Longrightarrow> str_replace '';;'' z (CHR '';'' # b) = CHR '';'' # b"
  by (cases b) (auto simp: startswith_def str_replace_semis_none)

lemma str_replace_semis_double:
  "str_replace '';;'' z (CHR '';'' # CHR '';'' # t) = z @ str_replace '';;'' z t"
  by (simp add: startswith_def)

lemma all_dropWhile: "(\<forall>x\<in>set (dropWhile P s). P x) \<longleftrightarrow> (\<forall>x\<in>set s. P x)"
  by (induction s) auto

lemma str_strip_Nil: "str_strip s = [] \<longleftrightarrow> (\<forall>c\<in>set s. isspace c)"
  by (simp add: str_strip_def str_strip_chars_def dropWhile_eq_Nil_conv all_dropWhile)

lemma str_split_ne: "str_split sep s \<noteq> []"
  by (subst str_split.simps) (simp split: list.splits)

lemma str_split_prefix:
  assumes "sep \<notin> set a"
  shows "str_split sep (a @ y) = (a @ hd (str_split sep y)) # tl (str_split sep y)"
proof (cases "sep \<in> set y")
  case False
  with assms have "sep \<notin> set (a @ y)" by simp
  then have "str_split sep (a @ y) = [a @ y]" by (rule str_split_none)
  with False show ?thesis by (simp add: str_split_none)
next
  case True
  then obtain y1 y2 where y: "y = y1 @ sep # y2" and n: "sep \<notin> set y1"
    by (auto dest: split_list_first)
  from assms n have "sep \<notin> set (a @ y1)" by simp
  from str_split_first [OF this, of y2] have "str_split sep (a @ y) = (a @ y1) # str_split sep y2"
    by (simp add: y)
  moreover from str_split_first [OF n, of y2] have "str_split sep y = y1 # str_split sep y2"
    by (simp add: y)
  ultimately show ?thesis by simp
qed

lemma str_split_append:
  "str_split sep (x @ y)
     = butlast (str_split sep x) @ [last (str_split sep x) @ hd (str_split sep y)]
       @ tl (str_split sep y)"
proof (induction x rule: length_induct)
  case (1 x)
  show ?case
  proof (cases "sep \<in> set x")
    case False
    then show ?thesis by (simp add: str_split_none str_split_prefix)
  next
    case True
    then obtain a x' where x: "x = a @ sep # x'" and n: "sep \<notin> set a"
      by (auto dest: split_list_first)
    from x have "length x' < length x" by simp
    with 1 have ih: "str_split sep (x' @ y)
     = butlast (str_split sep x') @ [last (str_split sep x') @ hd (str_split sep y)]
       @ tl (str_split sep y)" by blast
    from str_split_first [OF n, of "x' @ y"] have l: "str_split sep (x @ y) = a # str_split sep (x' @ y)"
      by (simp add: x)
    from str_split_first [OF n, of x'] have r: "str_split sep x = a # str_split sep x'"
      by (simp add: x)
    show ?thesis by (simp only: l r ih) (simp add: str_split_ne)
  qed
qed

lemma str_split_mid:
  assumes "sep \<notin> set m"
  shows "str_split sep (x @ m @ y)
     = butlast (str_split sep x) @ [last (str_split sep x) @ m @ hd (str_split sep y)]
       @ tl (str_split sep y)"
  by (simp add: str_split_append [of sep x "m @ y"] str_split_prefix [OF assms])

lemma str_replace_semis_append:
  "c \<noteq> CHR '';'' \<Longrightarrow>
   str_replace '';;'' z (x @ c # y) = str_replace '';;'' z x @ c # str_replace '';;'' z y"
proof (induction x rule: length_induct)
  case (1 x)
  show ?case
  proof (cases x)
    case Nil
    with 1(2) show ?thesis by (simp add: startswith_def)
  next
    case (Cons d x')
    note x = Cons
    show ?thesis
    proof (cases "d = CHR '';''")
      case False
      from 1 x have "str_replace '';;'' z (x' @ c # y) = str_replace '';;'' z x' @ c # str_replace '';;'' z y"
        by simp
      with False x show ?thesis by (simp add: startswith_def)
    next
      case True
      note d = True
      show ?thesis
      proof (cases x')
        case Nil
        with d x 1(2) show ?thesis by (simp add: startswith_def)
      next
        case (Cons d' x'')
        show ?thesis
        proof (cases "d' = CHR '';''")
          case True
          from 1 x Cons have "str_replace '';;'' z (x'' @ c # y) = str_replace '';;'' z x'' @ c # str_replace '';;'' z y"
            by simp
          with True d x Cons show ?thesis by (simp add: startswith_def)
        next
          case False
          from 1 x have "str_replace '';;'' z (x' @ c # y) = str_replace '';;'' z x' @ c # str_replace '';;'' z y"
            by simp
          with False d x Cons show ?thesis by (simp add: startswith_def)
        qed
      qed
    qed
  qed
qed
section \<open>Properties of the entity pattern\<close>

lemma star_chars: "p \<in> star A \<Longrightarrow> \<forall>x\<in>A. \<forall>c\<in>set x. P c \<Longrightarrow> \<forall>c\<in>set p. P c"
  by (induction rule: star.induct) auto

lemma lang_chars: "chars_ok P r \<Longrightarrow> p \<in> lang r \<Longrightarrow> \<forall>c\<in>set p. P c"
proof (induction r arbitrary: p)
  case (Star r)
  then show ?case using star_chars [of p "lang r" P] by auto
qed auto

lemma chars_ok_times: "chars_ok P r \<Longrightarrow> chars_ok P (times k r)"
  by (induction k) simp_all

lemma chars_ok_at_most: "chars_ok P r \<Longrightarrow> chars_ok P (at_most k r)"
  by (induction k) (simp_all add: Opt_def)

lemma chars_ok_Rep: "chars_ok P r \<Longrightarrow> chars_ok P (Rep r m n)"
  by (simp add: Rep_def chars_ok_times chars_ok_at_most)

lemma no_EndZ_times: "no_EndZ r \<Longrightarrow> no_EndZ (times k r)"
  by (induction k) simp_all

lemma no_EndZ_at_most: "no_EndZ r \<Longrightarrow> no_EndZ (at_most k r)"
  by (induction k) (simp_all add: Opt_def)

lemma no_EndZ_ENTITY_RE: "no_EndZ ENTITY_RE"
  by (simp add: ENTITY_RE_def Opt_def Rep_def no_EndZ_times no_EndZ_at_most)

lemma entity_body_chars:
  "chars_ok plain_char (seq [Group 2 (Opt (Sym (Chr CHR ''#''))),
                   Group 3 (Opt (Sym (Chr CHR ''x''))),
                   Group 4 (Alt (Rep (Sym digit) 1 5) (Rep (Sym word) 1 8))])"
  by (auto simp: Opt_def plain_char_def digit_def word_def intro!: chars_ok_Rep)

lemma lang_ENTITY_RE:
  assumes "p \<in> lang ENTITY_RE"
  shows "\<exists>body. p = CHR ''&'' # body @ '';'' \<and> (\<forall>c\<in>set body. plain_char c)"
proof -
  from assms obtain body where p: "p = CHR ''&'' # body @ '';''"
    and b: "body \<in> lang (seq [Group 2 (Opt (Sym (Chr CHR ''#''))),
                   Group 3 (Opt (Sym (Chr CHR ''x''))),
                   Group 4 (Alt (Rep (Sym digit) 1 5) (Rep (Sym word) 1 8))])"
    by (fastforce simp: ENTITY_RE_def)
  from lang_chars [OF entity_body_chars b] p show ?thesis by blast
qed

lemma matches_restrict:
  "t = s @ w \<Longrightarrow> no_EndZ r \<Longrightarrow> m \<in> set (matches r t caps) \<Longrightarrow> length w \<le> length (fst m) \<Longrightarrow>
   \<exists>s'. fst m = s' @ w \<and> (s', snd m) \<in> set (matches r s caps)"
proof (induction r t caps arbitrary: s m rule: matches.induct)
  case (1 cs t caps)
  from "1.prems"(3) obtain c rest where t: "t = c # rest" and c: "cset_mem cs c"
    and m: "m = (rest, caps)" by (cases t) (auto split: if_splits)
  from "1.prems"(1,4) t m obtain s0 where s: "s = c # s0" and rest: "rest = s0 @ w"
    by (cases s) auto
  from s rest c m show ?case by simp
next
  case (2 t caps)
  then show ?case by simp
next
  case (3 a b t caps)
  from "3.prems"(3) obtain m1 where m1: "m1 \<in> set (matches a t caps)"
    and m: "m \<in> set (matches b (fst m1) (snd m1))" by auto
  from "3.prems"(2) have na: "no_EndZ a" and nb: "no_EndZ b" by simp_all
  from matches_sound [OF m] obtain q where "fst m1 = q @ fst m" by blast
  with "3.prems"(4) have len: "length w \<le> length (fst m1)" by simp
  from "3.IH"(1) [OF "3.prems"(1) na m1 len] obtain s1
    where s1: "fst m1 = s1 @ w" "(s1, snd m1) \<in> set (matches a s caps)" by blast
  from "3.IH"(2) [OF m1 s1(1) nb m "3.prems"(4)] obtain s'
    where s': "fst m = s' @ w" "(s', snd m) \<in> set (matches b s1 (snd m1))" by blast
  from s1(2) s'(2) have "\<exists>x\<in>set (matches a s caps). (s', snd m) \<in> set (matches b (fst x) (snd x))"
    by (intro bexI [of _ "(s1, snd m1)"]) simp_all
  with s'(1) show ?case by simp
next
  case (4 a b t caps)
  from "4.prems"(3) consider "m \<in> set (matches a t caps)" | "m \<in> set (matches b t caps)"
    by auto
  then show ?case
  proof cases
    case 1
    from "4.IH"(1) [OF "4.prems"(1) _ 1 "4.prems"(4)] "4.prems"(2) show ?thesis by auto
  next
    case 2
    from "4.IH"(2) [OF "4.prems"(1) _ 2 "4.prems"(4)] "4.prems"(2) show ?thesis by auto
  qed
next
  case (5 a t caps)
  show ?case
  proof (cases "m = (t, caps)")
    case True
    with "5.prems"(1) show ?thesis by (simp add: set_matches_Star [of a s caps])
  next
    case False
    with "5.prems"(3) obtain m1 where m1: "m1 \<in> set (matches a t caps)"
      and lt: "length (fst m1) < length t"
      and m: "m \<in> set (matches (Star a) (fst m1) (snd m1))"
      by (auto simp: set_matches_Star [of a t caps] split: if_splits)
    from "5.prems"(2) have na: "no_EndZ a" by simp
    from matches_sound [OF m] obtain q where "fst m1 = q @ fst m" by blast
    with "5.prems"(4) have len: "length w \<le> length (fst m1)" by simp
    from "5.IH"(1) [OF "5.prems"(1) na m1 len] obtain s1
      where s1: "fst m1 = s1 @ w" "(s1, snd m1) \<in> set (matches a s caps)" by blast
    from "5.IH"(2) [OF m1 lt s1(1) "5.prems"(2) m "5.prems"(4)] obtain s'
      where s': "fst m = s' @ w" "(s', snd m) \<in> set (matches (Star a) s1 (snd m1))" by blast
    from lt s1(1) "5.prems"(1) have lt': "length s1 < length s" by simp
    have "(s', snd m) \<in> (\<Union>x\<in>set (matches a s caps).
             if length (fst x) < length s then set (matches (Star a) (fst x) (snd x)) else {})"
      by (rule UN_I [OF s1(2)]) (use s'(2) lt' in simp)
    then have "(s', snd m) \<in> set (matches (Star a) s caps)"
      by (subst set_matches_Star) (rule UnI1)
    with s'(1) show ?thesis by blast
  qed
next
  case (6 n a t caps)
  from "6.prems"(3) obtain m1 where m1: "m1 \<in> set (matches a t caps)"
    and f: "fst m = fst m1" and c: "snd m = (n, take (length t - length (fst m1)) t) # snd m1"
    by auto
  from "6.prems"(2) have na: "no_EndZ a" by simp
  from "6.IH" [OF "6.prems"(1) na m1] "6.prems"(4) f obtain s1
    where s1: "fst m1 = s1 @ w" "(s1, snd m1) \<in> set (matches a s caps)" by auto
  from matches_sound [OF s1(2)] obtain p where p: "s = p @ s1" by auto
  with s1(1) "6.prems"(1)
  have "take (length t - length (fst m1)) t = take (length s - length s1) s" by simp
  with c have c': "snd m = (n, take (length s - length s1) s) # snd m1" by simp
  have g: "(s1, snd m) \<in> set (matches (Group n a) s caps)"
    by (simp only: matches.simps set_map c')
       (rule image_eqI [of _ _ "(s1, snd m1)"], simp_all add: s1(2))
  from f s1(1) have "fst m = s1 @ w" by simp
  with g show ?case by (intro exI [of _ s1] conjI)
next
  case (7 t caps)
  then show ?case by simp
qed

lemma re_match_None: "re_match r s = None \<longleftrightarrow> matches r s [] = []"
  by (simp add: re_match_def split: list.splits)

lemma re_match_Some_mem: "re_match r s = Some m \<Longrightarrow> m \<in> set (matches r s [])"
  by (auto simp: re_match_def split: list.splits)

lemma matches_Group_text:
  "m \<in> set (matches (Group n a) s caps) \<Longrightarrow>
   map_of (snd m) n = Some (take (length s - length (fst m)) s)"
  by auto

lemma matches_ENTITY_RE:
  assumes "m \<in> set (matches ENTITY_RE s caps)"
  shows "\<exists>body. s = CHR ''&'' # body @ '';'' @ fst m \<and> (\<forall>c\<in>set body. plain_char c) \<and>
           map_of (snd m) 1 = Some (CHR ''&'' # body @ '';'')"
proof -
  from matches_sound [OF assms] obtain p where p: "s = p @ fst m" "p \<in> lang ENTITY_RE"
    by blast
  from lang_ENTITY_RE [OF p(2)] obtain body
    where b: "p = CHR ''&'' # body @ '';''" "\<forall>c\<in>set body. plain_char c" by blast
  from assms have "map_of (snd m) 1 = Some (take (length s - length (fst m)) s)"
    unfolding ENTITY_RE_def by (rule matches_Group_text)
  with p(1) have "map_of (snd m) 1 = Some p" by simp
  with p(1) b show ?thesis by auto
qed

lemma first_semicolon_unique:
  "a @ CHR '';'' # x = b @ CHR '';'' # y \<Longrightarrow> CHR '';'' \<notin> set a \<Longrightarrow> CHR '';'' \<notin> set b \<Longrightarrow>
   a = b \<and> x = y"
proof (induction a arbitrary: b)
  case Nil
  then show ?case by (cases b) auto
next
  case (Cons c a)
  then show ?case by (cases b) auto
qed

lemma plain_char_semicolon: "\<forall>c\<in>set body. plain_char c \<Longrightarrow> CHR '';'' \<notin> set body"
  by (auto simp: plain_char_def)

lemma re_match_ENTITY_RE_not_amp: "c \<noteq> CHR ''&'' \<Longrightarrow> re_match ENTITY_RE (c # cs) = None"
proof (rule ccontr)
  assume c: "c \<noteq> CHR ''&''" and "re_match ENTITY_RE (c # cs) \<noteq> None"
  then obtain m where "m \<in> set (matches ENTITY_RE (c # cs) [])"
    by (auto dest: re_match_Some_mem)
  from matches_ENTITY_RE [OF this] c show False by auto
qed

lemma re_match_ENTITY_RE_Nil: "re_match ENTITY_RE [] = None"
proof (rule ccontr)
  assume "re_match ENTITY_RE [] \<noteq> None"
  then obtain m where "m \<in> set (matches ENTITY_RE [] [])"
    by (auto dest: re_match_Some_mem)
  from matches_ENTITY_RE [OF this] show False by auto
qed

lemma re_match_ENTITY_RE_semicolon:
  "re_match ENTITY_RE s = Some m \<Longrightarrow> CHR '';'' \<in> set s"
  by (drule re_match_Some_mem, drule matches_ENTITY_RE) auto

lemma is_entity_shape:
  "is_entity e \<Longrightarrow> \<exists>body. e = CHR ''&'' # body @ '';'' \<and> (\<forall>c\<in>set body. plain_char c)"
proof -
  assume "is_entity e"
  then obtain m where m: "m \<in> set (matches ENTITY_RE e [])" and f: "fst m = []"
    by (auto simp: is_entity_def)
  from matches_ENTITY_RE [OF m] f show ?thesis by auto
qed

lemma re_match_is_entity:
  assumes "is_entity e"
  shows "\<exists>c. re_match ENTITY_RE (e @ w) = Some (w, c) \<and> group (w, c) 1 = Some e"
proof -
  from assms obtain c0 where c0: "([], c0) \<in> set (matches ENTITY_RE e [])"
    by (auto simp: is_entity_def)
  from matches_extend [OF no_EndZ_ENTITY_RE c0, of w]
  have "(w, c0) \<in> set (matches ENTITY_RE (e @ w) [])" by simp
  then obtain m ms where ms: "matches ENTITY_RE (e @ w) [] = m # ms"
    by (cases "matches ENTITY_RE (e @ w) []") auto
  then have m: "m \<in> set (matches ENTITY_RE (e @ w) [])" by simp
  from matches_ENTITY_RE [OF m] obtain body
    where b: "e @ w = CHR ''&'' # body @ '';'' @ fst m" "\<forall>c\<in>set body. plain_char c"
      "map_of (snd m) 1 = Some (CHR ''&'' # body @ '';'')" by blast
  from is_entity_shape [OF assms] obtain body'
    where b': "e = CHR ''&'' # body' @ '';''" "\<forall>c\<in>set body'. plain_char c" by blast
  from b(1) b'(1) have "body' @ CHR '';'' # w = body @ CHR '';'' # fst m" by simp
  from first_semicolon_unique [OF this plain_char_semicolon [OF b'(2)] plain_char_semicolon [OF b(2)]]
  have "body' = body" "w = fst m" by simp_all
  with b(3) b'(1) ms show ?thesis
    by (intro exI [of _ "snd m"]) (simp add: re_match_def group_def)
qed

lemma has_entity_no_semicolon: "CHR '';'' \<notin> set s \<Longrightarrow> \<not> has_entity s"
proof (induction s)
  case Nil
  then show ?case by simp
next
  case (Cons c cs)
  then show ?case using re_match_ENTITY_RE_semicolon [of "c # cs"] by auto
qed

lemma has_entity_no_amp: "CHR ''&'' \<notin> set s \<Longrightarrow> \<not> has_entity s"
  by (induction s) (auto simp: re_match_ENTITY_RE_not_amp)

lemma re_sub_no_entity: "\<not> has_entity s \<Longrightarrow> re_sub ENTITY_RE repl s = s"
proof (induction s)
  case Nil
  then show ?case by (simp add: re_match_ENTITY_RE_Nil)
next
  case (Cons c cs)
  from Cons.prems have n: "re_match ENTITY_RE (c # cs) = None"
    by (cases "re_match ENTITY_RE (c # cs)") auto
  from Cons.prems have "\<not> has_entity cs" by simp
  with Cons.IH n show ?case by simp
qed

lemma re_sub_no_amp:
  "CHR ''&'' \<notin> set u \<Longrightarrow> re_sub ENTITY_RE repl (u @ t) = u @ re_sub ENTITY_RE repl t"
proof (induction u)
  case Nil
  then show ?case by simp
next
  case (Cons c u)
  from Cons.prems have "c \<noteq> CHR ''&''" by auto
  then have n: "re_match ENTITY_RE (c # u @ t) = None" by (rule re_match_ENTITY_RE_not_amp)
  from Cons show ?case by (simp add: n)
qed

lemma re_match_ENTITY_RE_cut:
  assumes "CHR '';'' \<notin> set x"
  shows "re_match ENTITY_RE (x @ CHR '';'' # w) = None \<longleftrightarrow> re_match ENTITY_RE (x @ '';'') = None"
proof
  assume n: "re_match ENTITY_RE (x @ CHR '';'' # w) = None"
  show "re_match ENTITY_RE (x @ '';'') = None"
  proof (rule ccontr)
    assume "re_match ENTITY_RE (x @ '';'') \<noteq> None"
    then obtain m where "m \<in> set (matches ENTITY_RE (x @ '';'') [])"
      by (auto dest: re_match_Some_mem)
    from matches_extend [OF no_EndZ_ENTITY_RE, of "fst m" "snd m" "x @ '';''" "[]" w] this
    have "(fst m @ w, snd m) \<in> set (matches ENTITY_RE (x @ CHR '';'' # w) [])" by simp
    with n show False by (auto simp: re_match_None)
  qed
next
  assume n: "re_match ENTITY_RE (x @ '';'') = None"
  show "re_match ENTITY_RE (x @ CHR '';'' # w) = None"
  proof (rule ccontr)
    assume "re_match ENTITY_RE (x @ CHR '';'' # w) \<noteq> None"
    then obtain m where m: "m \<in> set (matches ENTITY_RE (x @ CHR '';'' # w) [])"
      by (auto dest: re_match_Some_mem)
    from matches_ENTITY_RE [OF m] obtain body
      where b: "x @ CHR '';'' # w = CHR ''&'' # body @ '';'' @ fst m" "\<forall>c\<in>set body. plain_char c"
      by blast
    from b(2) have "CHR '';'' \<notin> set (CHR ''&'' # body)" by (auto simp: plain_char_def)
    with b(1) first_semicolon_unique [of x w "CHR ''&'' # body" "fst m"] assms
    have "fst m = w" by simp
    with matches_restrict [of "x @ CHR '';'' # w" "x @ '';''" w ENTITY_RE m "[]"] m
      no_EndZ_ENTITY_RE
    obtain s' where "(s', snd m) \<in> set (matches ENTITY_RE (x @ '';'') [])" by auto
    with n show False by (auto simp: re_match_None)
  qed
qed

lemma has_entity_cut:
  "CHR '';'' \<notin> set a \<Longrightarrow>
   has_entity (a @ CHR '';'' # w) \<longleftrightarrow> has_entity (a @ '';'') \<or> has_entity w"
proof (induction a)
  case Nil
  then show ?case by (simp add: re_match_ENTITY_RE_not_amp)
next
  case (Cons c a)
  from Cons.prems have "CHR '';'' \<notin> set (c # a)" by simp
  from re_match_ENTITY_RE_cut [OF this, of w] Cons show ?case by auto
qed

lemma matches_complete:
  "no_EndZ r \<Longrightarrow> p \<in> lang r \<Longrightarrow> \<exists>c'. (w, c') \<in> set (matches r (p @ w) caps)"
proof (induction r arbitrary: p w caps)
  case (Sym cs)
  then show ?case by auto
next
  case Eps
  then show ?case by simp
next
  case (Seq a b)
  from Seq.prems(2) obtain x y where p: "p = x @ y" and x: "x \<in> lang a" and y: "y \<in> lang b"
    by auto
  from Seq.prems(1) have na: "no_EndZ a" and nb: "no_EndZ b" by simp_all
  from Seq.IH(1) [OF na x, of "y @ w" caps] obtain c1
    where c1: "(y @ w, c1) \<in> set (matches a (x @ y @ w) caps)" by auto
  from Seq.IH(2) [OF nb y, of w c1] obtain c2
    where c2: "(w, c2) \<in> set (matches b (y @ w) c1)" by auto
  from c1 c2 have "(w, c2) \<in> set (matches (Seq a b) (p @ w) caps)"
    by (simp add: p) (rule bexI [of _ "(y @ w, c1)"], simp_all)
  then show ?case by blast
next
  case (Alt a b)
  from Alt.prems(2) consider "p \<in> lang a" | "p \<in> lang b" by auto
  then show ?case
  proof cases
    case 1
    from Alt.IH(1) [OF _ 1, of w caps] Alt.prems(1) show ?thesis by auto
  next
    case 2
    from Alt.IH(2) [OF _ 2, of w caps] Alt.prems(1) show ?thesis by auto
  qed
next
  case (Star a)
  from Star.prems(1) have na: "no_EndZ a" by simp
  from Star.prems(2) have "p \<in> star (lang a)" by simp
  then have "\<exists>c'. (w, c') \<in> set (matches (Star a) (p @ w) caps)" for caps
  proof (induction arbitrary: caps rule: star.induct)
    case star_Nil
    have "(w, caps) \<in> set (matches (Star a) w caps)"
      by (subst set_matches_Star) simp
    then show ?case by auto
  next
    case (star_App x y)
    show ?case
    proof (cases "x = []")
      case True
      with star_App.IH [of caps] show ?thesis by simp
    next
      case False
      from Star.IH [OF na star_App.hyps(1), of "y @ w" caps] obtain c1
        where c1: "(y @ w, c1) \<in> set (matches a (x @ y @ w) caps)" by auto
      from star_App.IH [of c1] obtain c' where c': "(w, c') \<in> set (matches (Star a) (y @ w) c1)"
        by blast
      from False have lt: "length (y @ w) < length (x @ y @ w)" by simp
      have "(w, c') \<in> (\<Union>m\<in>set (matches a (x @ y @ w) caps).
             if length (fst m) < length (x @ y @ w) then set (matches (Star a) (fst m) (snd m)) else {})"
        by (rule UN_I [OF c1]) (use c' lt in simp)
      then have "(w, c') \<in> set (matches (Star a) (x @ y @ w) caps)"
        by (subst set_matches_Star) (rule UnI1)
      then show ?thesis by auto
    qed
  qed
  then show ?case .
next
  case (Group n a)
  from Group.IH [of p w caps] Group.prems obtain c' where "(w, c') \<in> set (matches a (p @ w) caps)"
    by auto
  then have "(w, (n, take (length (p @ w) - length w) (p @ w)) # c')
               \<in> set (matches (Group n a) (p @ w) caps)"
    by (simp only: matches.simps set_map) (rule image_eqI [of _ _ "(w, c')"], simp_all)
  then show ?case by blast
next
  case EndZ
  then show ?case by simp
qed

lemma is_entity_lang: "is_entity e \<longleftrightarrow> e \<in> lang ENTITY_RE"
proof
  assume "is_entity e"
  then obtain m where m: "m \<in> set (matches ENTITY_RE e [])" and f: "fst m = []"
    by (auto simp: is_entity_def)
  from matches_sound [OF m] f show "e \<in> lang ENTITY_RE" by auto
next
  assume "e \<in> lang ENTITY_RE"
  from matches_complete [OF no_EndZ_ENTITY_RE this, of "[]" "[]"]
  show "is_entity e" by (force simp: is_entity_def)
qed

lemma lang_Seq_Sym:
  "w \<in> lang (Seq (Sym cs) r) \<longleftrightarrow> (\<exists>c y. w = c # y \<and> cset_mem cs c \<and> y \<in> lang r)"
proof
  assume "w \<in> lang (Seq (Sym cs) r)"
  then show "\<exists>c y. w = c # y \<and> cset_mem cs c \<and> y \<in> lang r" by auto
next
  assume "\<exists>c y. w = c # y \<and> cset_mem cs c \<and> y \<in> lang r"
  then obtain c y where w: "w = c # y" and c: "cset_mem cs c" and y: "y \<in> lang r" by blast
  from c have "[c] \<in> lang (Sym cs)" by simp
  with y w have "\<exists>x y'. w = x @ y' \<and> x \<in> lang (Sym cs) \<and> y' \<in> lang r"
    by (intro exI [of _ "[c]"] exI [of _ y]) simp
  then show "w \<in> lang (Seq (Sym cs) r)" by simp
qed

lemma lang_times_Sym:
  "w \<in> lang (times k (Sym cs)) \<longleftrightarrow> length w = k \<and> (\<forall>c\<in>set w. cset_mem cs c)"
proof (induction k arbitrary: w)
  case 0
  then show ?case by auto
next
  case (Suc k)
  have "w \<in> lang (times (Suc k) (Sym cs)) \<longleftrightarrow>
        (\<exists>c y. w = c # y \<and> cset_mem cs c \<and> y \<in> lang (times k (Sym cs)))"
    by (simp only: times.simps lang_Seq_Sym)
  also have "\<dots> \<longleftrightarrow> length w = Suc k \<and> (\<forall>c\<in>set w. cset_mem cs c)"
    by (cases w) (auto simp: Suc)
  finally show ?case .
qed

lemma lang_at_most_Sym:
  "w \<in> lang (at_most k (Sym cs)) \<longleftrightarrow> length w \<le> k \<and> (\<forall>c\<in>set w. cset_mem cs c)"
proof (induction k arbitrary: w)
  case 0
  then show ?case by auto
next
  case (Suc k)
  have "w \<in> lang (at_most (Suc k) (Sym cs)) \<longleftrightarrow>
        w = [] \<or> (\<exists>c y. w = c # y \<and> cset_mem cs c \<and> y \<in> lang (at_most k (Sym cs)))"
    using lang_Seq_Sym [of w cs "at_most k (Sym cs)"] by (auto simp: Opt_def)
  also have "\<dots> \<longleftrightarrow> length w \<le> Suc k \<and> (\<forall>c\<in>set w. cset_mem cs c)"
    by (cases w) (auto simp: Suc)
  finally show ?case .
qed

lemma lang_Rep_Sym:
  assumes "m \<le> n"
  shows "w \<in> lang (Rep (Sym cs) m n)
           \<longleftrightarrow> m \<le> length w \<and> length w \<le> n \<and> (\<forall>c\<in>set w. cset_mem cs c)"
proof
  assume "w \<in> lang (Rep (Sym cs) m n)"
  then obtain x y where "w = x @ y" "length x = m" "\<forall>c\<in>set x. cset_mem cs c"
    "length y \<le> n - m" "\<forall>c\<in>set y. cset_mem cs c"
    by (auto simp: Rep_def lang_times_Sym lang_at_most_Sym)
  with assms show "m \<le> length w \<and> length w \<le> n \<and> (\<forall>c\<in>set w. cset_mem cs c)"
    by auto
next
  assume "m \<le> length w \<and> length w \<le> n \<and> (\<forall>c\<in>set w. cset_mem cs c)"
  then have w: "m \<le> length w" "length w \<le> n" "\<forall>c\<in>set w. cset_mem cs c" by simp_all
  have 1: "w = take m w @ drop m w" by simp
  from w have "length (take m w) = m" by simp
  moreover from w have "\<forall>c\<in>set (take m w). cset_mem cs c" by (auto dest: in_set_takeD)
  ultimately have 2: "take m w \<in> lang (times m (Sym cs))" by (simp only: lang_times_Sym)
  from w have "length (drop m w) \<le> n - m" by simp
  moreover from w have "\<forall>c\<in>set (drop m w). cset_mem cs c" by (auto dest: in_set_dropD)
  ultimately have 3: "drop m w \<in> lang (at_most (n - m) (Sym cs))" by (simp only: lang_at_most_Sym)
  from 1 2 3 have "\<exists>x y. w = x @ y \<and> x \<in> lang (times m (Sym cs)) \<and> y \<in> lang (at_most (n - m) (Sym cs))"
    by blast
  then show "w \<in> lang (Rep (Sym cs) m n)" by (simp add: Rep_def)
qed

lemma lang_Opt_Sym: "h \<in> lang (Opt (Sym (Chr a))) \<longleftrightarrow> h = [] \<or> h = [a]"
  by (auto simp: Opt_def)

lemma lang_SeqI: "x \<in> lang a \<Longrightarrow> y \<in> lang b \<Longrightarrow> x @ y \<in> lang (Seq a b)"
  by auto

lemma lang_SeqD:
  "w \<in> lang (Seq a b) \<Longrightarrow> \<exists>x y. w = x @ y \<and> x \<in> lang a \<and> y \<in> lang b"
  by auto

lemma lang_GroupD: "w \<in> lang (Group n a) \<Longrightarrow> w \<in> lang a"
  by simp

lemma lang_ChrD: "w \<in> lang (Sym (Chr a)) \<Longrightarrow> w = [a]"
  by simp

lemma ENTITY_RE_Seq:
  "ENTITY_RE =
     Group 1 (Seq (Sym (Chr CHR ''&''))
       (Seq (Group 2 (Opt (Sym (Chr CHR ''#''))))
         (Seq (Group 3 (Opt (Sym (Chr CHR ''x''))))
           (Seq (Group 4 (Alt (Rep (Sym digit) 1 5) (Rep (Sym word) 1 8)))
                (Sym (Chr CHR '';''))))))"
  by (simp add: ENTITY_RE_def)

lemma lang_ENTITY_RE_iff:
  "e \<in> lang ENTITY_RE \<longleftrightarrow>
     (\<exists>h x body. e = ''&'' @ h @ x @ body @ '';'' \<and>
        h \<in> lang (Opt (Sym (Chr CHR ''#''))) \<and> x \<in> lang (Opt (Sym (Chr CHR ''x''))) \<and>
        body \<in> lang (Alt (Rep (Sym digit) 1 5) (Rep (Sym word) 1 8)))"
proof
  assume "e \<in> lang ENTITY_RE"
  then have "e \<in> lang (Seq (Sym (Chr CHR ''&''))
       (Seq (Group 2 (Opt (Sym (Chr CHR ''#''))))
         (Seq (Group 3 (Opt (Sym (Chr CHR ''x''))))
           (Seq (Group 4 (Alt (Rep (Sym digit) 1 5) (Rep (Sym word) 1 8)))
                (Sym (Chr CHR '';''))))))"
    unfolding ENTITY_RE_Seq by (rule lang_GroupD)
  from lang_SeqD [OF this] obtain a r1 where e1: "e = a @ r1"
    and a: "a \<in> lang (Sym (Chr CHR ''&''))"
    and r1: "r1 \<in> lang (Seq (Group 2 (Opt (Sym (Chr CHR ''#''))))
         (Seq (Group 3 (Opt (Sym (Chr CHR ''x''))))
           (Seq (Group 4 (Alt (Rep (Sym digit) 1 5) (Rep (Sym word) 1 8)))
                (Sym (Chr CHR '';'')))))" by blast
  from lang_SeqD [OF r1] obtain h r2 where e2: "r1 = h @ r2"
    and h: "h \<in> lang (Group 2 (Opt (Sym (Chr CHR ''#''))))"
    and r2: "r2 \<in> lang (Seq (Group 3 (Opt (Sym (Chr CHR ''x''))))
           (Seq (Group 4 (Alt (Rep (Sym digit) 1 5) (Rep (Sym word) 1 8)))
                (Sym (Chr CHR '';''))))" by blast
  from lang_SeqD [OF r2] obtain x r3 where e3: "r2 = x @ r3"
    and x: "x \<in> lang (Group 3 (Opt (Sym (Chr CHR ''x''))))"
    and r3: "r3 \<in> lang (Seq (Group 4 (Alt (Rep (Sym digit) 1 5) (Rep (Sym word) 1 8)))
                (Sym (Chr CHR '';'')))" by blast
  from lang_SeqD [OF r3] obtain body z where e4: "r3 = body @ z"
    and b: "body \<in> lang (Group 4 (Alt (Rep (Sym digit) 1 5) (Rep (Sym word) 1 8)))"
    and z: "z \<in> lang (Sym (Chr CHR '';''))" by blast
  from e1 e2 e3 e4 lang_ChrD [OF a] lang_ChrD [OF z]
  have "e = ''&'' @ h @ x @ body @ '';''" by simp
  with lang_GroupD [OF h] lang_GroupD [OF x] lang_GroupD [OF b]
  show "\<exists>h x body. e = ''&'' @ h @ x @ body @ '';'' \<and>
        h \<in> lang (Opt (Sym (Chr CHR ''#''))) \<and> x \<in> lang (Opt (Sym (Chr CHR ''x''))) \<and>
        body \<in> lang (Alt (Rep (Sym digit) 1 5) (Rep (Sym word) 1 8))" by blast
next
  assume "\<exists>h x body. e = ''&'' @ h @ x @ body @ '';'' \<and>
        h \<in> lang (Opt (Sym (Chr CHR ''#''))) \<and> x \<in> lang (Opt (Sym (Chr CHR ''x''))) \<and>
        body \<in> lang (Alt (Rep (Sym digit) 1 5) (Rep (Sym word) 1 8))"
  then obtain h x body where e: "e = ''&'' @ h @ x @ body @ '';''"
    and h: "h \<in> lang (Opt (Sym (Chr CHR ''#'')))" and x: "x \<in> lang (Opt (Sym (Chr CHR ''x'')))"
    and b: "body \<in> lang (Alt (Rep (Sym digit) 1 5) (Rep (Sym word) 1 8))" by blast
  have s: "'';'' \<in> lang (Sym (Chr CHR '';''))" by simp
  have a: "''&'' \<in> lang (Sym (Chr CHR ''&''))" by simp
  from b have b': "body \<in> lang (Group 4 (Alt (Rep (Sym digit) 1 5) (Rep (Sym word) 1 8)))"
    by (simp only: lang.simps)
  from h have h': "h \<in> lang (Group 2 (Opt (Sym (Chr CHR ''#''))))" by (simp only: lang.simps)
  from x have x': "x \<in> lang (Group 3 (Opt (Sym (Chr CHR ''x''))))" by (simp only: lang.simps)
  note 1 = lang_SeqI [OF b' s]
  note 2 = lang_SeqI [OF x' 1]
  note 3 = lang_SeqI [OF h' 2]
  note 4 = lang_SeqI [OF a 3]
  from 4 show "e \<in> lang ENTITY_RE"
    unfolding ENTITY_RE_Seq e by (simp only: lang.simps(6))
qed

lemma lang_ENTITY_RE_shape: "e \<in> lang ENTITY_RE \<longleftrightarrow> entity_shape e"
  unfolding lang_ENTITY_RE_iff entity_shape_def
  by (simp only: lang_Opt_Sym lang.simps(4) Un_iff lang_Rep_Sym [of 1 5] lang_Rep_Sym [of 1 8])

lemma is_entity_shape_iff: "is_entity e \<longleftrightarrow> entity_shape e"
  by (simp add: is_entity_lang lang_ENTITY_RE_shape)
section \<open>Properties of \<open>split_parts\<close>\<close>

lemma str_replace_nul_id: "CHR 0x00 \<notin> set p \<Longrightarrow> str_replace [CHR 0x00] '';'' p = p"
  by (auto simp: str_replace_char intro!: map_idI)

lemma split_parts_steps:
  assumes "re_sub ENTITY_RE (\<lambda>m. (case group m 1 of Some g \<Rightarrow> g | None \<Rightarrow> []) @ '';'') arg = t"
    and "str_replace '';;'' [CHR 0x00] t = t'"
    and "str_split CHR '';'' t' = ps"
    and "map (str_replace [CHR 0x00] '';'') ps = ps'"
  shows "split_parts arg = (if length ps' > 1 \<and> str_strip (last ps') = [] then butlast ps' else ps')"
  unfolding split_parts_def Let_def assms ..

lemma map_nul_changes:
  "CHR 0x00 \<in> set s \<Longrightarrow> map (\<lambda>c. if c = CHR 0x00 then CHR '';'' else c) s \<noteq> s"
  by (induction s) auto

lemma split_parts_no_semicolon:
  assumes "CHR '';'' \<notin> set s"
  shows "split_parts s = [map (\<lambda>c. if c = CHR 0x00 then CHR '';'' else c) s]"
proof -
  have e: "\<not> has_entity s" using assms by (rule has_entity_no_semicolon)
  have r: "str_replace '';;'' [CHR 0x00] s = s" using assms by (rule str_replace_semis_none)
  have p: "str_split CHR '';'' s = [s]" using assms by (rule str_split_none)
  have n: "map (str_replace [CHR 0x00] '';'') [s] = [map (\<lambda>c. if c = CHR 0x00 then CHR '';'' else c) s]"
    by (simp add: str_replace_char)
  from split_parts_steps [OF re_sub_no_entity [OF e] r p n] show ?thesis by simp
qed

lemma split_parts_no_nul: "p \<in> set (split_parts s) \<Longrightarrow> CHR 0x00 \<notin> set p"
proof -
  assume "p \<in> set (split_parts s)"
  then obtain ps where "p \<in> set (map (str_replace [CHR 0x00] '';'') ps)"
    by (auto simp: split_parts_def Let_def split: if_splits dest: in_set_butlastD)
  then show ?thesis by (auto simp: str_replace_char)
qed

lemma re_sub_match:
  "re_match r s = Some m \<Longrightarrow> length (fst m) < length s \<Longrightarrow>
   re_sub r repl s = repl m @ re_sub r repl (fst m)"
  by (cases s) simp_all

lemma re_sub_entity:
  assumes "is_entity e"
  shows "re_sub ENTITY_RE (\<lambda>m. (case group m 1 of Some g \<Rightarrow> g | None \<Rightarrow> []) @ '';'') (e @ w)
           = e @ '';'' @
             re_sub ENTITY_RE (\<lambda>m. (case group m 1 of Some g \<Rightarrow> g | None \<Rightarrow> []) @ '';'') w"
proof -
  from is_entity_shape [OF assms] obtain body where e: "e = CHR ''&'' # body @ '';''" by blast
  from re_match_is_entity [OF assms, of w] obtain c
    where m: "re_match ENTITY_RE (e @ w) = Some (w, c)" "group (w, c) 1 = Some e" by blast
  have "length (fst (w, c)) < length (e @ w)" using e by simp
  from re_sub_match [OF m(1) this] m(2) show ?thesis by simp
qed

lemma str_replace_nul_mid:
  "CHR 0x00 \<notin> set a \<Longrightarrow> CHR 0x00 \<notin> set b \<Longrightarrow>
   str_replace [CHR 0x00] '';'' (a @ CHR 0x00 # b) = a @ CHR '';'' # b"
  by (auto simp: str_replace_char intro!: map_idI)

lemma plain_chars:
  assumes "\<forall>c\<in>set u. plain_char c"
  shows "CHR '';'' \<notin> set u" "CHR 0x00 \<notin> set u" "CHR ''&'' \<notin> set u"
  using assms by (auto simp: plain_char_def)

lemma re_match_ENTITY_RE_Some:
  assumes "re_match ENTITY_RE s = Some m"
  shows "\<exists>e. is_entity e \<and> s = e @ fst m"
proof -
  from assms have m: "m \<in> set (matches ENTITY_RE s [])" by (rule re_match_Some_mem)
  from matches_sound [OF m] obtain p where p: "s = p @ fst m" by blast
  from matches_restrict [OF p no_EndZ_ENTITY_RE m] obtain s'
    where "fst m = s' @ fst m" "(s', snd m) \<in> set (matches ENTITY_RE p [])" by auto
  then have "([], snd m) \<in> set (matches ENTITY_RE p [])" by simp
  then have "is_entity p" unfolding is_entity_def by force
  with p show ?thesis by blast
qed

lemma entity_prefix_cut:
  assumes "is_entity e" and "e @ r = x @ c # y" and "\<not> plain_char c" and "c \<noteq> CHR '';''"
    and "x \<noteq> []"
  shows "\<exists>x''. x = e @ x'' \<and> r = x'' @ c # y"
proof -
  from is_entity_shape [OF assms(1)] obtain body
    where e: "e = CHR ''&'' # body @ '';''" and b: "\<forall>c\<in>set body. plain_char c" by blast
  from assms(2) consider us where "e = x @ us" "us @ r = c # y" | us where "e @ us = x" "r = us @ c # y"
    by (auto simp: append_eq_append_conv2)
  then show ?thesis
  proof cases
    case 1
    show ?thesis
    proof (cases us)
      case Nil
      with 1 show ?thesis by simp
    next
      case (Cons c' us')
      with 1 have c': "c' = c" and ex: "e = x @ c # us'" by simp_all
      from assms(5) obtain d x' where x: "x = d # x'" by (cases x) auto
      from ex e x have "body @ '';'' = x' @ c # us'" by simp
      then have "c \<in> set (body @ '';'')" by simp
      with b assms(3,4) have False by auto
      then show ?thesis ..
    qed
  next
    case 2
    then show ?thesis by auto
  qed
qed

lemma re_sub_ENTITY_RE_append:
  assumes "\<not> plain_char c" and "c \<noteq> CHR '';''"
  shows "re_sub ENTITY_RE (\<lambda>m. (case group m 1 of Some g \<Rightarrow> g | None \<Rightarrow> []) @ '';'') (x @ c # y)
           = re_sub ENTITY_RE (\<lambda>m. (case group m 1 of Some g \<Rightarrow> g | None \<Rightarrow> []) @ '';'') x
             @ re_sub ENTITY_RE (\<lambda>m. (case group m 1 of Some g \<Rightarrow> g | None \<Rightarrow> []) @ '';'') (c # y)"
proof (induction x rule: length_induct)
  case (1 x)
  let ?sub = "re_sub ENTITY_RE (\<lambda>m. (case group m 1 of Some g \<Rightarrow> g | None \<Rightarrow> []) @ '';'')"
  show ?case
  proof (cases x)
    case Nil
    then show ?thesis by (simp add: re_match_ENTITY_RE_Nil)
  next
    case (Cons d x')
    then have ne: "x \<noteq> []" by simp
    show ?thesis
    proof (cases "\<exists>e x''. is_entity e \<and> x = e @ x''")
      case True
      then obtain e x'' where e: "is_entity e" and x: "x = e @ x''" by blast
      from is_entity_shape [OF e] x have "length x'' < length x" by auto
      with 1 have ih: "?sub (x'' @ c # y) = ?sub x'' @ ?sub (c # y)" by blast
      from re_sub_entity [OF e, of "x'' @ c # y"] re_sub_entity [OF e, of x''] ih x
      show ?thesis by simp
    next
      case False
      have n1: "re_match ENTITY_RE x = None"
      proof (rule ccontr)
        assume "re_match ENTITY_RE x \<noteq> None"
        then obtain m where "re_match ENTITY_RE x = Some m" by auto
        from re_match_ENTITY_RE_Some [OF this] False show False by blast
      qed
      have n2: "re_match ENTITY_RE (x @ c # y) = None"
      proof (rule ccontr)
        assume "re_match ENTITY_RE (x @ c # y) \<noteq> None"
        then obtain m where "re_match ENTITY_RE (x @ c # y) = Some m" by auto
        from re_match_ENTITY_RE_Some [OF this] obtain e
          where e: "is_entity e" "x @ c # y = e @ fst m" by blast
        from entity_prefix_cut [OF e(1) e(2) [symmetric] assms ne] e(1) False
        show False by blast
      qed
      from Cons have "length x' < length x" by simp
      with 1 have ih: "?sub (x' @ c # y) = ?sub x' @ ?sub (c # y)" by blast
      from n1 n2 Cons ih show ?thesis by simp
    qed
  qed
qed

lemma re_sub_entity_mid:
  assumes "is_entity e"
  shows "re_sub ENTITY_RE (\<lambda>m. (case group m 1 of Some g \<Rightarrow> g | None \<Rightarrow> []) @ '';'') (u @ e @ w)
           = re_sub ENTITY_RE (\<lambda>m. (case group m 1 of Some g \<Rightarrow> g | None \<Rightarrow> []) @ '';'') u
             @ e @ '';'' @
             re_sub ENTITY_RE (\<lambda>m. (case group m 1 of Some g \<Rightarrow> g | None \<Rightarrow> []) @ '';'') w"
proof -
  let ?sub = "re_sub ENTITY_RE (\<lambda>m. (case group m 1 of Some g \<Rightarrow> g | None \<Rightarrow> []) @ '';'')"
  from is_entity_shape [OF assms] obtain body where e: "e = CHR ''&'' # body @ '';''" by blast
  have "?sub (u @ CHR ''&'' # (body @ '';'' @ w)) = ?sub u @ ?sub (CHR ''&'' # (body @ '';'' @ w))"
    by (rule re_sub_ENTITY_RE_append) (simp_all add: plain_char_def)
  then have "?sub (u @ e @ w) = ?sub u @ ?sub (e @ w)" by (simp add: e)
  with re_sub_entity [OF assms, of w] show ?thesis by simp
qed

lemma re_sub_nul_mid:
  "re_sub ENTITY_RE (\<lambda>m. (case group m 1 of Some g \<Rightarrow> g | None \<Rightarrow> []) @ '';'') (u @ CHR 0x00 # w)
     = re_sub ENTITY_RE (\<lambda>m. (case group m 1 of Some g \<Rightarrow> g | None \<Rightarrow> []) @ '';'') u
       @ CHR 0x00 #
       re_sub ENTITY_RE (\<lambda>m. (case group m 1 of Some g \<Rightarrow> g | None \<Rightarrow> []) @ '';'') w"
proof -
  let ?sub = "re_sub ENTITY_RE (\<lambda>m. (case group m 1 of Some g \<Rightarrow> g | None \<Rightarrow> []) @ '';'')"
  have "?sub (u @ CHR 0x00 # w) = ?sub u @ ?sub (CHR 0x00 # w)"
    by (rule re_sub_ENTITY_RE_append) (simp_all add: plain_char_def)
  moreover have "re_match ENTITY_RE (CHR 0x00 # w) = None"
    by (rule re_match_ENTITY_RE_not_amp) simp
  ultimately show ?thesis by simp
qed

lemma split_parts_raw: "split_parts s = drop_blank (raw_parts s)"
  by (simp add: split_parts_def raw_parts_def drop_blank_def Let_def)

lemma raw_parts_ne: "raw_parts s \<noteq> []"
  by (simp add: raw_parts_def str_split_ne)

lemma raw_parts_glue:
  assumes "str_replace '';;'' [CHR 0x00]
             (re_sub ENTITY_RE (\<lambda>m. (case group m 1 of Some g \<Rightarrow> g | None \<Rightarrow> []) @ '';'') s)
           = str_replace '';;'' [CHR 0x00]
               (re_sub ENTITY_RE (\<lambda>m. (case group m 1 of Some g \<Rightarrow> g | None \<Rightarrow> []) @ '';'') u)
             @ m @
             str_replace '';;'' [CHR 0x00]
               (re_sub ENTITY_RE (\<lambda>m. (case group m 1 of Some g \<Rightarrow> g | None \<Rightarrow> []) @ '';'') w)"
    and "CHR '';'' \<notin> set m"
  shows "raw_parts s = glue (raw_parts u) (str_replace [CHR 0x00] '';'' m) (raw_parts w)"
proof -
  let ?sub = "re_sub ENTITY_RE (\<lambda>m. (case group m 1 of Some g \<Rightarrow> g | None \<Rightarrow> []) @ '';'')"
  let ?P = "str_split CHR '';'' (str_replace '';;'' [CHR 0x00] (?sub u))"
  let ?Q = "str_split CHR '';'' (str_replace '';;'' [CHR 0x00] (?sub w))"
  let ?f = "str_replace [CHR 0x00] '';''"
  have P: "?P \<noteq> []" and Q: "?Q \<noteq> []" by (rule str_split_ne)+
  have f: "?f (a @ b) = ?f a @ ?f b" for a b by (simp add: str_replace_char)
  have "raw_parts s = map ?f (butlast ?P @ [last ?P @ m @ hd ?Q] @ tl ?Q)"
    unfolding raw_parts_def assms(1) by (simp only: str_split_mid [OF assms(2)])
  also have "\<dots> = butlast (map ?f ?P) @ [last (map ?f ?P) @ ?f m @ hd (map ?f ?Q)] @ tl (map ?f ?Q)"
    using P Q by (simp add: map_butlast last_map hd_map map_tl f)
  finally show ?thesis by (simp add: glue_def raw_parts_def)
qed

lemma raw_parts_entity:
  assumes "is_entity e"
  shows "raw_parts (u @ e @ w) = glue (raw_parts u) e (raw_parts w)"
proof -
  let ?sub = "re_sub ENTITY_RE (\<lambda>m. (case group m 1 of Some g \<Rightarrow> g | None \<Rightarrow> []) @ '';'')"
  let ?rep = "str_replace '';;'' [CHR 0x00]"
  from is_entity_shape [OF assms] obtain body
    where e: "e = CHR ''&'' # body @ '';''" and body: "\<forall>c\<in>set body. plain_char c" by blast
  note pb = plain_chars [OF body]
  have amp: "CHR ''&'' \<noteq> CHR '';''" by simp
  have "?sub (u @ e @ w) = ?sub u @ CHR ''&'' # (body @ CHR '';'' # CHR '';'' # ?sub w)"
    using re_sub_entity_mid [OF assms, of u w] by (simp add: e)
  then have "?rep (?sub (u @ e @ w)) = ?rep (?sub u) @ CHR ''&'' # ?rep (body @ CHR '';'' # CHR '';'' # ?sub w)"
    by (simp only: str_replace_semis_append [OF amp])
  also have "?rep (body @ CHR '';'' # CHR '';'' # ?sub w) = body @ CHR 0x00 # ?rep (?sub w)"
    by (simp only: str_replace_semis_prefix [OF pb(1)] str_replace_semis_double append.simps)
  finally have r: "?rep (?sub (u @ e @ w)) = ?rep (?sub u) @ (CHR ''&'' # body @ [CHR 0x00]) @ ?rep (?sub w)"
    by simp
  have n: "CHR '';'' \<notin> set (CHR ''&'' # body @ [CHR 0x00])" using pb(1) by simp
  have "str_replace [CHR 0x00] '';'' (CHR ''&'' # body @ [CHR 0x00])
          = map (\<lambda>c. if c = CHR 0x00 then CHR '';'' else c) (CHR ''&'' # body @ [CHR 0x00])"
    by (rule str_replace_char)
  also have "\<dots> = e" using pb(2) by (auto simp: e intro!: map_idI)
  finally have k: "str_replace [CHR 0x00] '';'' (CHR ''&'' # body @ [CHR 0x00]) = e" .
  from raw_parts_glue [OF r n] show ?thesis unfolding k .
qed

lemma raw_parts_nul:
  "raw_parts (u @ [CHR 0x00] @ w) = glue (raw_parts u) '';'' (raw_parts w)"
proof -
  let ?sub = "re_sub ENTITY_RE (\<lambda>m. (case group m 1 of Some g \<Rightarrow> g | None \<Rightarrow> []) @ '';'')"
  let ?rep = "str_replace '';;'' [CHR 0x00]"
  have "?rep (?sub (u @ [CHR 0x00] @ w)) = ?rep (?sub u @ CHR 0x00 # ?sub w)"
    using re_sub_nul_mid [of u w] by simp
  also have "\<dots> = ?rep (?sub u) @ CHR 0x00 # ?rep (?sub w)"
    by (rule str_replace_semis_append) simp
  finally have r: "?rep (?sub (u @ [CHR 0x00] @ w)) = ?rep (?sub u) @ [CHR 0x00] @ ?rep (?sub w)"
    by simp
  have n: "CHR '';'' \<notin> set [CHR 0x00]" by simp
  have k: "str_replace [CHR 0x00] '';'' [CHR 0x00] = '';''" by (simp add: startswith_def)
  from raw_parts_glue [OF r n] show ?thesis unfolding k .
qed

lemma drop_blank_glue:
  assumes "\<exists>c\<in>set m. \<not> isspace c"
  shows "\<exists>ps p q qs. drop_blank (glue P m Q) = ps @ (p @ m @ q) # qs"
proof (cases "tl Q = []")
  case True
  from assms have "str_strip (last P @ m @ hd Q) \<noteq> []" by (auto simp: str_strip_Nil)
  with True have "drop_blank (glue P m Q) = butlast P @ (last P @ m @ hd Q) # []"
    by (simp add: drop_blank_def glue_def)
  then show ?thesis by blast
next
  case False
  then have "butlast (glue P m Q) = butlast P @ (last P @ m @ hd Q) # butlast (tl Q)"
    by (simp add: glue_def butlast_append)
  moreover have "glue P m Q = butlast P @ (last P @ m @ hd Q) # tl Q" by (simp add: glue_def)
  ultimately show ?thesis unfolding drop_blank_def by (metis (full_types))
qed

lemma entity_between_plain:
  assumes "is_entity e" and "\<forall>c\<in>set u. plain_char c" and "\<forall>c\<in>set v. plain_char c"
  shows "split_parts (u @ e @ v) = [u @ e @ v] \<and>
         split_parts (u @ e @ '';'' @ v) = (if str_strip v = [] then [u @ e] else [u @ e, v]) \<and>
         split_parts (u @ '';'' @ e @ v) = [u, e @ v]"
proof -
  from is_entity_shape [OF assms(1)] obtain body
    where e: "e = CHR ''&'' # body @ '';''" and body: "\<forall>c\<in>set body. plain_char c" by blast
  note pu = plain_chars [OF assms(2)] and pv = plain_chars [OF assms(3)]
    and pb = plain_chars [OF body]
  let ?sub = "re_sub ENTITY_RE (\<lambda>m. (case group m 1 of Some g \<Rightarrow> g | None \<Rightarrow> []) @ '';'')"
  let ?h = "u @ CHR ''&'' # body"
  have h: "CHR '';'' \<notin> set ?h" "CHR 0x00 \<notin> set ?h" using pu pb by simp_all
  have subv: "?sub v = v" using pv(3) by (intro re_sub_no_entity has_entity_no_amp)
  have subsv: "?sub (CHR '';'' # v) = CHR '';'' # v"
    using pv(3) by (intro re_sub_no_entity has_entity_no_amp) simp
  have nh: "str_replace [CHR 0x00] '';'' (?h @ CHR 0x00 # v) = ?h @ CHR '';'' # v"
    using h(2) pv(2) by (rule str_replace_nul_mid)
  \<comment> \<open>the entity inside a part\<close>
  have "?sub (u @ e @ v) = u @ e @ '';'' @ v"
    by (simp only: re_sub_no_amp [OF pu(3)] re_sub_entity [OF assms(1)] subv)
  then have t1: "?sub (u @ e @ v) = ?h @ CHR '';'' # CHR '';'' # v"
    by (simp add: e)
  have r1: "str_replace '';;'' [CHR 0x00] (?h @ CHR '';'' # CHR '';'' # v) = ?h @ CHR 0x00 # v"
    by (simp only: str_replace_semis_prefix [OF h(1)] str_replace_semis_double
        str_replace_semis_none [OF pv(1)] append.simps)
  have s1: "str_split CHR '';'' (?h @ CHR 0x00 # v) = [?h @ CHR 0x00 # v]"
    using h(1) pv(1) by (intro str_split_none) simp
  have n1: "map (str_replace [CHR 0x00] '';'') [?h @ CHR 0x00 # v] = [?h @ CHR '';'' # v]"
    using nh by simp
  have p1: "split_parts (u @ e @ v) = [u @ e @ v]"
    using split_parts_steps [OF t1 r1 s1 n1] by (simp add: e)
  \<comment> \<open>the entity before a delimiter\<close>
  have "?sub (u @ e @ CHR '';'' # v) = u @ e @ '';'' @ CHR '';'' # v"
    by (simp only: re_sub_no_amp [OF pu(3)] re_sub_entity [OF assms(1)] subsv)
  then have t2: "?sub (u @ e @ '';'' @ v) = ?h @ CHR '';'' # CHR '';'' # CHR '';'' # v"
    by (simp add: e)
  have r2: "str_replace '';;'' [CHR 0x00] (?h @ CHR '';'' # CHR '';'' # CHR '';'' # v)
              = ?h @ CHR 0x00 # CHR '';'' # v"
    by (simp only: str_replace_semis_prefix [OF h(1)] str_replace_semis_double
        str_replace_semis_single [OF pv(1)] append.simps)
  have "str_split CHR '';'' ((?h @ [CHR 0x00]) @ CHR '';'' # v) = (?h @ [CHR 0x00]) # str_split CHR '';'' v"
    by (rule str_split_first) (use h(1) in simp)
  then have s2: "str_split CHR '';'' (?h @ CHR 0x00 # CHR '';'' # v) = [?h @ [CHR 0x00], v]"
    by (simp add: str_split_none [OF pv(1)])
  have nh2: "str_replace [CHR 0x00] '';'' (?h @ [CHR 0x00]) = ?h @ '';''"
    using str_replace_nul_mid [OF h(2), of "[]"] by simp
  have n2: "map (str_replace [CHR 0x00] '';'') [?h @ [CHR 0x00], v] = [?h @ '';'', v]"
    by (simp only: list.map nh2 str_replace_nul_id [OF pv(2)])
  have p2: "split_parts (u @ e @ '';'' @ v) = (if str_strip v = [] then [u @ e] else [u @ e, v])"
    using split_parts_steps [OF t2 r2 s2 n2] by (simp add: e)
  \<comment> \<open>the entity after a delimiter\<close>
  have us: "CHR ''&'' \<notin> set (u @ '';'')" using pu(3) by simp
  have "?sub ((u @ '';'') @ e @ v) = (u @ '';'') @ e @ '';'' @ v"
    by (simp only: re_sub_no_amp [OF us] re_sub_entity [OF assms(1)] subv)
  then have t3: "?sub (u @ '';'' @ e @ v) = u @ CHR '';'' # (CHR ''&'' # body) @ CHR '';'' # CHR '';'' # v"
    by (simp add: e)
  have r3: "str_replace '';;'' [CHR 0x00] (u @ CHR '';'' # (CHR ''&'' # body) @ CHR '';'' # CHR '';'' # v)
              = u @ CHR '';'' # (CHR ''&'' # body) @ CHR 0x00 # v"
  proof -
    have "str_replace '';;'' [CHR 0x00] ((CHR ''&'' # body) @ CHR '';'' # CHR '';'' # v)
            = (CHR ''&'' # body) @ CHR 0x00 # v"
      using pb(1)
      by (subst str_replace_semis_prefix)
         (simp_all only: str_replace_semis_double str_replace_semis_none [OF pv(1)] append.simps
            set_simps insert_iff char.inject, simp_all)
    then show ?thesis
      by (simp add: str_replace_semis_prefix [OF pu(1)] startswith_def)
  qed
  have s3: "str_split CHR '';'' (u @ CHR '';'' # (CHR ''&'' # body) @ CHR 0x00 # v)
              = [u, (CHR ''&'' # body) @ CHR 0x00 # v]"
    using pb(1) pv(1) by (subst str_split_first [OF pu(1)]) (simp add: str_split_none)
  have ab: "CHR 0x00 \<notin> set (CHR ''&'' # body)" using pb(2) by simp
  have n3: "map (str_replace [CHR 0x00] '';'') [u, (CHR ''&'' # body) @ CHR 0x00 # v]
              = [u, (CHR ''&'' # body) @ CHR '';'' # v]"
    by (simp only: list.map str_replace_nul_id [OF pu(2)] str_replace_nul_mid [OF ab pv(2)])
  have p3: "split_parts (u @ '';'' @ e @ v) = [u, e @ v]"
    using split_parts_steps [OF t3 r3 s3 n3] by (simp add: e str_strip_Nil isspace_def)
  from p1 p2 p3 show ?thesis by blast
qed

lemma entity_not_blank:
  assumes "is_entity e"
  shows "\<exists>c\<in>set e. \<not> isspace c"
proof -
  from is_entity_shape [OF assms] obtain body where "e = CHR ''&'' # body @ '';''" by blast
  then have "CHR ''&'' \<in> set e" by simp
  moreover have "\<not> isspace CHR ''&''" by (simp add: isspace_def)
  ultimately show ?thesis by blast
qed
section \<open>Properties of \<open>split_parts\<close>: the claims\<close>

text \<open>
  C5 (as the code has it). Let \<open>a\<close> and \<open>b\<close> contain no semicolon and no NUL character,
  and let the clause \<open>a;b\<close> hold no character entity. Then \<^verbatim>\<open>split_parts\<close> of \<open>a;b\<close> is
  \<open>[a, b]\<close> when \<open>b\<close> has a character that is not whitespace and \<open>[a]\<close> otherwise; of
  \<open>a;;b\<close> it is the one part \<open>a;b\<close>; of \<open>a;\<close> and of \<open>a\<close> it is \<open>[a]\<close>.
\<close>

theorem split_parts_plain:
  assumes "CHR '';'' \<notin> set a" and "CHR '';'' \<notin> set b"
    and "CHR 0x00 \<notin> set a" and "CHR 0x00 \<notin> set b"
    and "\<not> has_entity (a @ '';'' @ b)"
  shows "split_parts (a @ '';'' @ b) = (if str_strip b = [] then [a] else [a, b]) \<and>
         split_parts (a @ '';;'' @ b) = [a @ '';'' @ b] \<and>
         split_parts (a @ '';'') = [a] \<and>
         split_parts a = [a]"
proof -
  have ea: "\<not> has_entity (a @ '';'')"
    using has_entity_cut [OF assms(1), of b] assms(5) by simp
  have nb: "\<not> has_entity b" using assms(2) by (rule has_entity_no_semicolon)
  have na: "\<not> has_entity a" using assms(1) by (rule has_entity_no_semicolon)
  have e1: "\<not> has_entity (a @ CHR '';'' # b)"
    using has_entity_cut [OF assms(1), of b] ea nb by simp
  have e2: "\<not> has_entity (a @ CHR '';'' # CHR '';'' # b)"
    using has_entity_cut [OF assms(1), of "CHR '';'' # b"] ea nb
    by (simp add: re_match_ENTITY_RE_not_amp)
  have r1: "str_replace '';;'' [CHR 0x00] (a @ CHR '';'' # b) = a @ CHR '';'' # b"
    by (simp only: str_replace_semis_prefix [OF assms(1)] str_replace_semis_single [OF assms(2)])
  have r2: "str_replace '';;'' [CHR 0x00] (a @ CHR '';'' # CHR '';'' # b) = a @ CHR 0x00 # b"
    by (simp only: str_replace_semis_prefix [OF assms(1)] str_replace_semis_double
        str_replace_semis_none [OF assms(2)] append.simps)
  have r3: "str_replace '';;'' [CHR 0x00] (a @ '';'') = a @ '';''"
    by (simp only: str_replace_semis_prefix [OF assms(1)] str_replace_semis_single [of "[]"]
        set_simps empty_iff not_False_eq_True)
  have r4: "str_replace '';;'' [CHR 0x00] a = a"
    using assms(1) by (rule str_replace_semis_none)
  have s1: "str_split CHR '';'' (a @ CHR '';'' # b) = [a, b]"
    by (simp only: str_split_first [OF assms(1)] str_split_none [OF assms(2)])
  have s2: "str_split CHR '';'' (a @ CHR 0x00 # b) = [a @ CHR 0x00 # b]"
    using assms(1,2) by (intro str_split_none) simp
  have s3: "str_split CHR '';'' (a @ '';'') = [a, []]"
    by (simp only: str_split_first [OF assms(1)] str_split_none [of _ "[]"]
        set_simps empty_iff not_False_eq_True)
  have s4: "str_split CHR '';'' a = [a]"
    using assms(1) by (rule str_split_none)
  have n1: "map (str_replace [CHR 0x00] '';'') [a, b] = [a, b]"
    using assms(3,4) by (simp add: str_replace_nul_id)
  have n2: "map (str_replace [CHR 0x00] '';'') [a @ CHR 0x00 # b] = [a @ CHR '';'' # b]"
    using assms(3,4) by (auto simp: str_replace_char intro!: map_idI)
  have n3: "map (str_replace [CHR 0x00] '';'') [a, []] = [a, []]"
    using assms(3) by (simp add: str_replace_nul_id)
  have n4: "map (str_replace [CHR 0x00] '';'') [a] = [a]"
    using assms(3) by (simp add: str_replace_nul_id)
  have p1: "split_parts (a @ '';'' @ b) = (if str_strip b = [] then [a] else [a, b])"
    using split_parts_steps [OF re_sub_no_entity [OF e1] r1 s1 n1] by simp
  have p2: "split_parts (a @ '';;'' @ b) = [a @ '';'' @ b]"
    using split_parts_steps [OF re_sub_no_entity [OF e2] r2 s2 n2] by simp
  have p3: "split_parts (a @ '';'') = [a]"
    using split_parts_steps [OF re_sub_no_entity [OF ea] r3 s3 n3]
    by (simp add: str_strip_Nil)
  have p4: "split_parts a = [a]"
    using split_parts_steps [OF re_sub_no_entity [OF na] r4 s4 n4] by simp
  from p1 p2 p3 p4 show ?thesis by blast
qed

theorem split_parts_plain_witness:
  "CHR '';'' \<notin> set ''x y'' \<and> CHR '';'' \<notin> set '' z'' \<and>
   CHR 0x00 \<notin> set ''x y'' \<and> CHR 0x00 \<notin> set '' z'' \<and> \<not> has_entity ''x y; z'' \<and>
   split_parts ''x y; z'' = [''x y'', '' z''] \<and>
   split_parts ''x y;; z'' = [''x y; z''] \<and>
   split_parts ''x y;'' = [''x y''] \<and>
   split_parts ''x y'' = [''x y''] \<and>
   CHR '';'' \<notin> set ''a'' \<and> CHR '';'' \<notin> set [CHR 0x1F] \<and>
   CHR 0x00 \<notin> set ''a'' \<and> CHR 0x00 \<notin> set [CHR 0x1F] \<and>
   \<not> has_entity [CHR ''a'', CHR '';'', CHR 0x1F] \<and>
   split_parts [CHR ''a'', CHR '';'', CHR 0x1F] = [''a'']"
proof -
  have e: "\<not> has_entity (''x y'' @ '';'' @ '' z'')" by code_simp
  have s: "str_strip '' z'' \<noteq> []" by code_simp
  have e': "\<not> has_entity (''a'' @ '';'' @ [CHR 0x1F])" by code_simp
  have s': "str_strip [CHR 0x1F] = []" by code_simp
  from split_parts_plain [where a = "''x y''" and b = "'' z''", OF _ _ _ _ e]
    split_parts_plain [where a = "''a''" and b = "[CHR 0x1F]", OF _ _ _ _ e'] e s e' s'
  show ?thesis by simp
qed

text \<open>
  C5 as stated fails where \<open>b\<close> is empty or all whitespace (the last part is dropped),
  and where \<open>a\<close> or \<open>b\<close> holds a NUL character (it comes back as a semicolon).
\<close>

theorem split_parts_plain_counterexample:
  "CHR '';'' \<notin> set ''a'' \<and> CHR '';'' \<notin> set '' '' \<and> \<not> has_entity (''a'' @ '';'' @ '' '') \<and>
   split_parts (''a'' @ '';'' @ '' '') \<noteq> [''a'', '' ''] \<and>
   CHR '';'' \<notin> set '''' \<and> \<not> has_entity (''a'' @ '';'' @ '''') \<and>
   split_parts (''a'' @ '';'' @ '''') \<noteq> [''a'', ''''] \<and>
   CHR '';'' \<notin> set [CHR ''a'', CHR 0x00] \<and> CHR '';'' \<notin> set ''b'' \<and>
   \<not> has_entity ([CHR ''a'', CHR 0x00] @ '';'' @ ''b'') \<and>
   split_parts ([CHR ''a'', CHR 0x00] @ '';'' @ ''b'') \<noteq> [[CHR ''a'', CHR 0x00], ''b''] \<and>
   split_parts ([CHR ''a'', CHR 0x00] @ '';;'' @ ''b'') \<noteq> [[CHR ''a'', CHR 0x00] @ '';'' @ ''b''] \<and>
   split_parts ([CHR ''a'', CHR 0x00] @ '';'') \<noteq> [[CHR ''a'', CHR 0x00]] \<and>
   split_parts [CHR ''a'', CHR 0x00] \<noteq> [[CHR ''a'', CHR 0x00]]"
proof -
  have 1: "split_parts ''a; '' = [''a'']" by code_simp
  have 2: "split_parts ''a;'' = [''a'']" by code_simp
  have 3: "split_parts [CHR ''a'', CHR 0x00, CHR '';'', CHR ''b''] = [''a;'', ''b'']" by code_simp
  have 4: "split_parts [CHR ''a'', CHR 0x00, CHR '';'', CHR '';'', CHR ''b''] = [''a;;b'']" by code_simp
  have 5: "split_parts [CHR ''a'', CHR 0x00, CHR '';''] = [''a;'']" by code_simp
  have 6: "split_parts [CHR ''a'', CHR 0x00] = [''a;'']" by code_simp
  have 7: "\<not> has_entity ''a; ''" by code_simp
  have 8: "\<not> has_entity ''a;''" by code_simp
  have 9: "\<not> has_entity [CHR ''a'', CHR 0x00, CHR '';'', CHR ''b'']" by code_simp
  from 1 2 3 4 5 6 7 8 9 show ?thesis by simp
qed

text \<open>
  C10. A NUL character anywhere in the input comes back as a semicolon: for all texts
  \<open>u\<close> and \<open>w\<close>, the parts of \<open>u\<close>, NUL, \<open>w\<close> are the parts of \<open>u\<close> followed by the parts
  of \<open>w\<close>, with a semicolon between the last part of \<open>u\<close> and the first part of \<open>w\<close>, which
  it joins into one part (parts as they stand before a blank last part is dropped). No
  part that \<^verbatim>\<open>split_parts\<close> returns holds a NUL character. An input without semicolons
  comes back as one part with every NUL character turned into a semicolon, so it is not
  returned unchanged when it holds a NUL character.
\<close>

theorem split_parts_NUL:
  "split_parts (u @ [CHR 0x00] @ w) = drop_blank (glue (raw_parts u) '';'' (raw_parts w)) \<and>
   split_parts s = drop_blank (raw_parts s) \<and>
   (\<exists>ps p q qs. split_parts (u @ [CHR 0x00] @ w) = ps @ (p @ '';'' @ q) # qs) \<and>
   (\<forall>p\<in>set (split_parts s). CHR 0x00 \<notin> set p) \<and>
   (CHR '';'' \<notin> set t \<longrightarrow>
      split_parts t = [map (\<lambda>c. if c = CHR 0x00 then CHR '';'' else c) t]) \<and>
   (CHR 0x00 \<in> set t \<and> CHR '';'' \<notin> set t \<longrightarrow> split_parts t \<noteq> [t]) \<and>
   split_parts [CHR ''a'', CHR 0x00, CHR ''b''] = [''a;b''] \<and>
   split_parts [CHR ''a'', CHR 0x00, CHR ''b'', CHR '';'', CHR ''c''] = [''a;b'', ''c''] \<and>
   split_parts [CHR ''a'', CHR 0x00, CHR ''b'', CHR '';'', CHR ''c'', CHR '';'', CHR ''d'']
     = [''a;b'', ''c'', ''d'']"
proof -
  have g: "split_parts (u @ [CHR 0x00] @ w) = drop_blank (glue (raw_parts u) '';'' (raw_parts w))"
    by (simp only: split_parts_raw raw_parts_nul)
  have l: "split_parts s = drop_blank (raw_parts s)" by (rule split_parts_raw)
  have "\<exists>c\<in>set '';''. \<not> isspace c" by (simp add: isspace_def)
  from drop_blank_glue [OF this, of "raw_parts u" "raw_parts w"]
  have x: "\<exists>ps p q qs. split_parts (u @ [CHR 0x00] @ w) = ps @ (p @ '';'' @ q) # qs"
    by (simp only: g)
  have 1: "\<forall>p\<in>set (split_parts s). CHR 0x00 \<notin> set p"
    by (auto dest: split_parts_no_nul)
  have 2: "CHR '';'' \<notin> set t \<longrightarrow>
      split_parts t = [map (\<lambda>c. if c = CHR 0x00 then CHR '';'' else c) t]"
    by (simp add: split_parts_no_semicolon)
  have 3: "CHR 0x00 \<in> set t \<and> CHR '';'' \<notin> set t \<longrightarrow> split_parts t \<noteq> [t]"
    by (auto simp: split_parts_no_semicolon dest: map_nul_changes)
  have 4: "split_parts [CHR ''a'', CHR 0x00, CHR ''b''] = [''a;b'']"
    by code_simp
  have 5: "split_parts [CHR ''a'', CHR 0x00, CHR ''b'', CHR '';'', CHR ''c''] = [''a;b'', ''c'']"
    by code_simp
  have 6: "split_parts [CHR ''a'', CHR 0x00, CHR ''b'', CHR '';'', CHR ''c'', CHR '';'', CHR ''d'']
     = [''a;b'', ''c'', ''d'']"
    by code_simp
  from g l x 1 2 3 4 5 6 show ?thesis by blast
qed

theorem split_parts_NUL_witness:
  "split_parts ([CHR ''a'', CHR '';'', CHR ''b''] @ [CHR 0x00] @ [CHR ''c'', CHR '';'', CHR ''d''])
     = [''a'', ''b;c'', ''d''] \<and>
   raw_parts ''a;b'' = [''a'', ''b''] \<and> raw_parts ''c;d'' = [''c'', ''d''] \<and>
   drop_blank (glue [''a'', ''b''] '';'' [''c'', ''d'']) = [''a'', ''b;c'', ''d''] \<and>
   list_all (\<lambda>p. CHR 0x00 \<notin> set p) (split_parts [CHR ''a'', CHR 0x00, CHR '';'', CHR ''b'']) \<and>
   CHR 0x00 \<in> set [CHR ''a'', CHR 0x00, CHR ''b''] \<and>
   CHR '';'' \<notin> set [CHR ''a'', CHR 0x00, CHR ''b''] \<and>
   split_parts [CHR ''a'', CHR 0x00, CHR ''b''] = [''a;b''] \<and>
   split_parts [CHR ''a'', CHR 0x00, CHR ''b''] \<noteq> [[CHR ''a'', CHR 0x00, CHR ''b'']]"
proof -
  have r1: "raw_parts ''a;b'' = [''a'', ''b'']" by code_simp
  have r2: "raw_parts ''c;d'' = [''c'', ''d'']" by code_simp
  have d: "drop_blank (glue [''a'', ''b''] '';'' [''c'', ''d'']) = [''a'', ''b;c'', ''d'']" by code_simp
  from split_parts_NUL [where u = "''a;b''" and w = "''c;d''"
      and s = "[CHR ''a'', CHR 0x00, CHR '';'', CHR ''b'']"
      and t = "[CHR ''a'', CHR 0x00, CHR ''b'']"] r1 r2 d
  show ?thesis by (simp add: list_all_iff)
qed

text \<open>
  C6 (as the code has it). The strings that \<^verbatim>\<open>ENTITY_RE\<close> matches as a whole are the
  character entities the specification describes. Such an entity \<open>e\<close> comes out of
  \<^verbatim>\<open>split_parts\<close> as it went in, wherever it stands: for all texts \<open>u\<close> and \<open>w\<close>, the parts of \<open>u\<close>, \<open>e\<close>, \<open>w\<close> are
  the parts of \<open>u\<close> followed by the parts of \<open>w\<close>, with \<open>e\<close> between the last part of \<open>u\<close>
  and the first part of \<open>w\<close>, which it joins into one part (parts as they stand before a
  blank last part is dropped); so \<open>e\<close> is found whole in one of the parts returned. For
  plain text \<open>a\<close> and \<open>b\<close> around it this gives the parts of an entity inside a part,
  right before a delimiter and right after one. The parts are not trimmed: the second
  part of \<^verbatim>\<open>x &amp; y; z\<close> keeps its leading space.
\<close>

theorem split_parts_entity:
  assumes "entity_shape e"
  shows "split_parts (u @ e @ w) = drop_blank (glue (raw_parts u) e (raw_parts w)) \<and>
         split_parts s = drop_blank (raw_parts s) \<and>
         (\<exists>ps p q qs. split_parts (u @ e @ w) = ps @ (p @ e @ q) # qs) \<and>
         ((\<forall>c\<in>set a. plain_char c) \<and> (\<forall>c\<in>set b. plain_char c) \<longrightarrow>
            split_parts (a @ e @ b) = [a @ e @ b] \<and>
            split_parts (a @ e @ '';'' @ b) = (if str_strip b = [] then [a @ e] else [a @ e, b]) \<and>
            split_parts (a @ '';'' @ e @ b) = [a, e @ b]) \<and>
         (is_entity t \<longleftrightarrow> entity_shape t) \<and>
         split_parts ''x &amp; y; z'' = [''x &amp; y'', '' z'']"
proof (intro conjI impI)
  from assms have ent: "is_entity e" by (simp only: is_entity_shape_iff)
  show "is_entity t \<longleftrightarrow> entity_shape t" by (rule is_entity_shape_iff)
  show g: "split_parts (u @ e @ w) = drop_blank (glue (raw_parts u) e (raw_parts w))"
    by (simp only: split_parts_raw raw_parts_entity [OF ent])
  show "split_parts s = drop_blank (raw_parts s)" by (rule split_parts_raw)
  from drop_blank_glue [OF entity_not_blank [OF ent], of "raw_parts u" "raw_parts w"]
  show "\<exists>ps p q qs. split_parts (u @ e @ w) = ps @ (p @ e @ q) # qs"
    unfolding g .
  show "split_parts ''x &amp; y; z'' = [''x &amp; y'', '' z'']"
    by code_simp
next
  from assms have ent: "is_entity e" by (simp only: is_entity_shape_iff)
  assume p: "(\<forall>c\<in>set a. plain_char c) \<and> (\<forall>c\<in>set b. plain_char c)"
  then have pa: "\<forall>c\<in>set a. plain_char c" and pb: "\<forall>c\<in>set b. plain_char c" by simp_all
  note r = entity_between_plain [OF ent pa pb]
  show "split_parts (a @ e @ b) = [a @ e @ b]" by (rule r [THEN conjunct1])
  show "split_parts (a @ e @ '';'' @ b) = (if str_strip b = [] then [a @ e] else [a @ e, b])"
    by (rule r [THEN conjunct2, THEN conjunct1])
  show "split_parts (a @ '';'' @ e @ b) = [a, e @ b]"
    by (rule r [THEN conjunct2, THEN conjunct2])
qed

theorem split_parts_entity_witness:
  "entity_shape ''&amp;'' \<and> is_entity ''&amp;'' \<and>
   \<not> is_entity ''&abcdefghi;'' \<and> \<not> entity_shape ''&abcdefghi;'' \<and>
   split_parts (''x '' @ ''&amp;'' @ '' y; z'') = [''x &amp; y'', '' z''] \<and>
   raw_parts ''x '' = [''x ''] \<and> raw_parts '' y; z'' = ['' y'', '' z''] \<and>
   drop_blank (glue [''x ''] ''&amp;'' ['' y'', '' z'']) = [''x &amp; y'', '' z''] \<and>
   list_all plain_char ''a '' \<and> list_all plain_char '' b'' \<and>
   split_parts ''a &amp; b'' = [''a &amp; b''] \<and>
   split_parts ''a &amp;; b'' = [''a &amp;'', '' b''] \<and>
   split_parts ''a ;&amp; b'' = [''a '', ''&amp; b''] \<and>
   list_all plain_char [CHR 0x1F] \<and>
   split_parts (''a '' @ ''&amp;'' @ '';'' @ [CHR 0x1F]) = [''a &amp;''] \<and>
   entity_shape [CHR ''&'', CHR 0xE9, CHR '';''] \<and> list_all plain_char ''x'' \<and>
   split_parts (''x'' @ [CHR ''&'', CHR 0xE9, CHR '';''] @ ''x'')
     = [[CHR ''x'', CHR ''&'', CHR 0xE9, CHR '';'', CHR ''x'']]"
proof -
  have "is_entity [CHR ''&'', CHR 0xE9, CHR '';'']" by code_simp
  then have 7: "entity_shape [CHR ''&'', CHR 0xE9, CHR '';'']" by (simp only: is_entity_shape_iff)
  have 1: "is_entity ''&amp;''" by code_simp
  have 0: "entity_shape ''&amp;''" using 1 by (simp only: is_entity_shape_iff)
  have 9: "\<not> is_entity ''&abcdefghi;''" by code_simp
  have 8: "\<forall>c\<in>set ''x''. plain_char c" by (simp add: plain_char_def)
  have 5: "\<forall>c\<in>set [CHR 0x1F]. plain_char c" by (simp add: plain_char_def)
  have 6: "str_strip [CHR 0x1F] = []" by code_simp
  have 2: "\<forall>c\<in>set ''a ''. plain_char c" by (simp add: plain_char_def)
  have 3: "\<forall>c\<in>set '' b''. plain_char c" by (simp add: plain_char_def)
  have 4: "str_strip '' b'' \<noteq> []" by code_simp
  have r1: "raw_parts ''x '' = [''x '']" by code_simp
  have r2: "raw_parts '' y; z'' = ['' y'', '' z'']" by code_simp
  have d: "drop_blank (glue [''x ''] ''&amp;'' ['' y'', '' z'']) = [''x &amp; y'', '' z'']"
    by code_simp
  from split_parts_entity [OF 0, where u = "''x ''" and w = "'' y; z''"
      and a = "''a ''" and b = "'' b''" and s = "[]" and t = "''&abcdefghi;''"]
    split_parts_entity [OF 0, where u = "[]" and w = "[]"
      and a = "''a ''" and b = "[CHR 0x1F]" and s = "[]" and t = "[]"]
    split_parts_entity [OF 7, where u = "[]" and w = "[]"
      and a = "''x''" and b = "''x''" and s = "[]" and t = "[]"] 0 1 2 3 4 5 6 7 8 9 r1 r2 d
  show ?thesis by simp
qed

text \<open>
  C6 as stated fails on its own example: the second part is \<^verbatim>\<open>" z"\<close>, not \<^verbatim>\<open>"z"\<close>.
\<close>

theorem split_parts_entity_counterexample:
  "split_parts ''x &amp; y; z'' = [''x &amp; y'', '' z''] \<and>
   split_parts ''x &amp; y; z'' \<noteq> [''x &amp; y'', ''z'']"
proof -
  have "split_parts ''x &amp; y; z'' = [''x &amp; y'', '' z'']" by code_simp
  then show ?thesis by simp
qed
section \<open>Properties of the clause parsers\<close>

lemma matches_ends_EndZ:
  "ends_EndZ r \<Longrightarrow> m \<in> set (matches r s caps) \<Longrightarrow> fst m = []"
proof (induction r s caps arbitrary: m rule: matches.induct)
  case (3 a b s caps)
  from "3.prems"(2) obtain m1 where m1: "m1 \<in> set (matches a s caps)"
    and m: "m \<in> set (matches b (fst m1) (snd m1))" by auto
  from "3.IH"(2) [OF m1 _ m] "3.prems"(1) show ?case by simp
next
  case (7 s caps)
  then show ?case by (auto split: if_splits)
qed simp_all

lemma ATTR_RE_groups:
  assumes "re_match ATTR_RE s = Some m"
  shows "\<exists>name expr. group m 1 = Some name \<and> group m 2 = Some expr"
proof -
  from assms have "m \<in> set (matches ATTR_RE s [])" by (rule re_match_Some_mem)
  from matches_binds [OF this] have "{1, 2} \<subseteq> dom (map_of (snd m))"
    by (simp add: ATTR_RE_def Plus_def)
  then show ?thesis by (auto simp: group_def)
qed

lemma ATTR_RE_match_None: "ATTR_RE_match s = None \<longleftrightarrow> re_match ATTR_RE s = None"
  using ATTR_RE_groups [of s]
  by (auto simp: ATTR_RE_match_def split: option.splits)

lemma DEFINE_RE_groups:
  assumes "re_match DEFINE_RE s = Some m"
  shows "\<exists>name expr. group m 2 = Some name \<and> group m 3 = Some expr"
proof -
  from assms have "m \<in> set (matches DEFINE_RE s [])" by (rule re_match_Some_mem)
  from matches_binds [OF this] have "{2, 3} \<subseteq> dom (map_of (snd m))"
    by (simp add: DEFINE_RE_def Plus_def Opt_def)
  then show ?thesis by (auto simp: group_def)
qed

lemma DEFINE_RE_match_None: "DEFINE_RE_match s = None \<longleftrightarrow> re_match DEFINE_RE s = None"
  using DEFINE_RE_groups [of s]
  by (auto simp: DEFINE_RE_match_def split: option.splits)

lemma lang_Star_Sym:
  assumes "p \<in> lang (Star (Sym cs))"
  shows "\<forall>c\<in>set p. cset_mem cs c"
proof -
  have "chars_ok (cset_mem cs) (Star (Sym cs))" by simp
  from lang_chars [OF this assms] show ?thesis .
qed

lemma lang_Plus_Sym:
  "p \<in> lang (Plus (Sym cs)) \<Longrightarrow> p \<noteq> [] \<and> (\<forall>c\<in>set p. cset_mem cs c)"
proof -
  assume "p \<in> lang (Plus (Sym cs))"
  then obtain c q where "p = c # q" "cset_mem cs c" "q \<in> lang (Star (Sym cs))"
    by (auto simp: Plus_def)
  with lang_Star_Sym [of q cs] show ?thesis by auto
qed

lemma lang_SeqE:
  assumes "p \<in> lang (Seq a b)"
  obtains x y where "p = x @ y" "x \<in> lang a" "y \<in> lang b"
  using assms by auto

lemma lang_ATTR_RE: "p \<in> lang ATTR_RE \<Longrightarrow> attr_shape p"
proof -
  assume "p \<in> lang ATTR_RE"
  then have "p \<in> lang (Seq (Star (Sym Space)) (Seq (Group 1 (Plus (Sym (Not Space))))
               (Seq (Plus (Sym Space)) (Seq (Group 2 (Seq (Sym (Not Space)) (Star (Sym Dot)))) EndZ))))"
    by (simp only: ATTR_RE_def seq.simps)
  then obtain ws r1 where 1: "p = ws @ r1" "ws \<in> lang (Star (Sym Space))"
    and r1: "r1 \<in> lang (Seq (Group 1 (Plus (Sym (Not Space))))
               (Seq (Plus (Sym Space)) (Seq (Group 2 (Seq (Sym (Not Space)) (Star (Sym Dot)))) EndZ)))"
    by (rule lang_SeqE)
  from r1 obtain name r2 where 2: "r1 = name @ r2" "name \<in> lang (Group 1 (Plus (Sym (Not Space))))"
    and r2: "r2 \<in> lang (Seq (Plus (Sym Space)) (Seq (Group 2 (Seq (Sym (Not Space)) (Star (Sym Dot)))) EndZ))"
    by (rule lang_SeqE)
  from r2 obtain ws' r3 where 3: "r2 = ws' @ r3" "ws' \<in> lang (Plus (Sym Space))"
    and r3: "r3 \<in> lang (Seq (Group 2 (Seq (Sym (Not Space)) (Star (Sym Dot)))) EndZ)"
    by (rule lang_SeqE)
  from r3 obtain expr r4 where 4: "r3 = expr @ r4" "expr \<in> lang (Group 2 (Seq (Sym (Not Space)) (Star (Sym Dot))))"
    and r4: "r4 \<in> lang EndZ"
    by (rule lang_SeqE)
  from r4 have e: "r4 = []" by simp
  from 4(2) have "expr \<in> lang (Seq (Sym (Not Space)) (Star (Sym Dot)))" by (simp only: lang.simps)
  then obtain x y where "expr = x @ y" "x \<in> lang (Sym (Not Space))" by (rule lang_SeqE)
  then have ne: "expr \<noteq> []" by auto
  from 2(2) have n: "name \<in> lang (Plus (Sym (Not Space)))" by (simp only: lang.simps)
  from 1(1) 2(1) 3(1) 4(1) e have p: "p = ws @ name @ ws' @ expr" by simp
  from lang_Star_Sym [OF 1(2)] have a: "\<forall>c\<in>set ws. isspace c" by simp
  from lang_Plus_Sym [OF n] have b: "name \<noteq> []" "\<forall>c\<in>set name. \<not> isspace c" by simp_all
  from lang_Plus_Sym [OF 3(2)] have c: "ws' \<noteq> []" "\<forall>c\<in>set ws'. isspace c" by simp_all
  from p a b c ne show ?thesis unfolding attr_shape_def by blast
qed

lemma ATTR_RE_match_shape: "\<not> attr_shape part \<Longrightarrow> ATTR_RE_match part = None"
proof (rule ccontr)
  assume n: "\<not> attr_shape part" and "ATTR_RE_match part \<noteq> None"
  then obtain m where m: "m \<in> set (matches ATTR_RE part [])"
    by (auto simp: ATTR_RE_match_None dest: re_match_Some_mem)
  have "ends_EndZ ATTR_RE" by (simp add: ATTR_RE_def)
  from matches_ends_EndZ [OF this m] matches_sound [OF m] have "part \<in> lang ATTR_RE" by auto
  with lang_ATTR_RE n show False by blast
qed

lemma dict_set_new: "k \<notin> fst ` set d \<Longrightarrow> dict_set d k v = d @ [(k, v)]"
  by (induction d) auto

lemma dict_set_keys: "fst ` set (dict_set d k v) = insert k (fst ` set d)"
proof (induction d)
  case Nil
  show ?case by simp
next
  case (Cons x d)
  obtain k' v' where x: "x = (k', v')" by (cases x)
  show ?case
  proof (cases "k' = k")
    case True
    with x show ?thesis by simp
  next
    case False
    with x Cons.IH show ?thesis by (simp add: insert_commute)
  qed
qed

lemma map_of_dict_set: "map_of (dict_set d k v) k' = (if k' = k then Some v else map_of d k')"
  by (induction d) auto

lemma parse_attributes_loop_bad_part:
  "\<exists>part\<in>set parts. ATTR_RE_match part = None \<Longrightarrow>
   \<exists>msg ctx. parse_attributes_loop clause parts attrs = Inl (LanguageError msg ctx)"
proof (induction parts arbitrary: attrs)
  case Nil
  then show ?case by simp
next
  case (Cons part parts)
  show ?case
  proof (cases "ATTR_RE_match part")
    case None
    then show ?thesis by simp
  next
    case (Some ne)
    with Cons.prems have "\<exists>part\<in>set parts. ATTR_RE_match part = None" by auto
    from Cons.IH [OF this] Some show ?thesis by (cases ne) auto
  qed
qed

lemma parse_attributes_loop_Inl:
  "parse_attributes_loop clause parts attrs = Inl e \<Longrightarrow> \<exists>msg ctx. e = LanguageError msg ctx"
proof (induction parts arbitrary: attrs)
  case Nil
  then show ?case by simp
next
  case (Cons part parts)
  then show ?case by (auto split: option.splits if_splits)
qed

lemma parse_attributes_loop_Inr:
  "parse_attributes_loop clause parts attrs = Inr res \<Longrightarrow>
   \<exists>new. map ATTR_RE_match parts = map Some new \<and> res = attrs @ new \<and>
         distinct (map fst new) \<and> fst ` set attrs \<inter> fst ` set new = {}"
proof (induction parts arbitrary: attrs)
  case Nil
  then show ?case by simp
next
  case (Cons part parts)
  from Cons.prems obtain name expr where m: "ATTR_RE_match part = Some (name, expr)"
    and n: "name \<notin> fst ` set attrs"
    and r: "parse_attributes_loop clause parts (dict_set attrs name expr) = Inr res"
    by (auto split: option.splits if_splits)
  from n have d: "dict_set attrs name expr = attrs @ [(name, expr)]" by (rule dict_set_new)
  from Cons.IH [OF r] obtain new where new: "map ATTR_RE_match parts = map Some new"
    "res = dict_set attrs name expr @ new" "distinct (map fst new)"
    "fst ` set (dict_set attrs name expr) \<inter> fst ` set new = {}" by blast
  from new(4) d have k: "name \<notin> fst ` set new" "fst ` set attrs \<inter> fst ` set new = {}" by auto
  have "map ATTR_RE_match (part # parts) = map Some ((name, expr) # new) \<and>
        res = attrs @ (name, expr) # new \<and> distinct (map fst ((name, expr) # new)) \<and>
        fst ` set attrs \<inter> fst ` set ((name, expr) # new) = {}"
    using m new(1,2,3) d k n by auto
  then show ?case by blast
qed

lemma parse_attributes_loop_prefix:
  "map ATTR_RE_match parts = map Some new \<Longrightarrow> distinct (map fst new) \<Longrightarrow>
   fst ` set attrs \<inter> fst ` set new = {} \<Longrightarrow>
   parse_attributes_loop clause (parts @ rest) attrs
     = parse_attributes_loop clause rest (attrs @ new)"
proof (induction parts arbitrary: attrs new)
  case Nil
  then show ?case by simp
next
  case (Cons part parts)
  from Cons.prems(1) obtain name expr new' where new: "new = (name, expr) # new'"
    and m: "ATTR_RE_match part = Some (name, expr)"
    and r: "map ATTR_RE_match parts = map Some new'"
    by (cases new) auto
  from Cons.prems(3) new have n: "name \<notin> fst ` set attrs" by auto
  from n have d: "dict_set attrs name expr = attrs @ [(name, expr)]" by (rule dict_set_new)
  from Cons.prems(2) new have d': "distinct (map fst new')" and nn: "name \<notin> fst ` set new'"
    by auto
  from Cons.prems(3) new nn have "fst ` set (attrs @ [(name, expr)]) \<inter> fst ` set new' = {}"
    by auto
  from Cons.IH [OF r d' this] m n d new show ?case by simp
qed

lemma parse_attributes_loop_ok:
  "map ATTR_RE_match parts = map Some new \<Longrightarrow> distinct (map fst new) \<Longrightarrow>
   fst ` set attrs \<inter> fst ` set new = {} \<Longrightarrow>
   parse_attributes_loop clause parts attrs = Inr (attrs @ new)"
  using parse_attributes_loop_prefix [of parts new attrs clause "[]"] by simp

lemma parse_attributes_first_bad:
  assumes "k < length (split_parts clause)"
    and "ATTR_RE_match (split_parts clause ! k) = None"
    and "map ATTR_RE_match (take k (split_parts clause)) = map Some pre"
    and "distinct (map fst pre)"
  shows "parse_attributes clause = Inl (LanguageError ''Bad syntax in attributes.'' clause)"
proof -
  from assms(1) have s: "split_parts clause
      = take k (split_parts clause) @ (split_parts clause ! k) # drop (Suc k) (split_parts clause)"
    by (simp add: id_take_nth_drop)
  have "parse_attributes clause
      = parse_attributes_loop clause
          (take k (split_parts clause) @ (split_parts clause ! k) # drop (Suc k) (split_parts clause)) []"
    unfolding parse_attributes_def using s by simp
  also have "\<dots> = parse_attributes_loop clause
          ((split_parts clause ! k) # drop (Suc k) (split_parts clause)) ([] @ pre)"
    by (rule parse_attributes_loop_prefix [OF assms(3,4)]) simp
  also have "\<dots> = Inl (LanguageError ''Bad syntax in attributes.'' clause)"
    by (simp add: assms(2))
  finally show ?thesis .
qed

lemma parse_attributes_first_duplicate:
  assumes "n < length (split_parts clause)"
    and "map ATTR_RE_match (take n (split_parts clause)) = map Some seen"
    and "distinct (map fst seen)"
    and "ATTR_RE_match (split_parts clause ! n) = Some (nm, ex)"
    and "nm \<in> fst ` set seen"
  shows "parse_attributes clause
           = Inl (LanguageError ''Duplicate attribute name in attributes.'' (split_parts clause ! n))"
proof -
  from assms(1) have s: "split_parts clause
      = take n (split_parts clause) @ (split_parts clause ! n) # drop (Suc n) (split_parts clause)"
    by (simp add: id_take_nth_drop)
  have "parse_attributes clause
      = parse_attributes_loop clause
          (take n (split_parts clause) @ (split_parts clause ! n) # drop (Suc n) (split_parts clause)) []"
    unfolding parse_attributes_def using s by simp
  also have "\<dots> = parse_attributes_loop clause
          ((split_parts clause ! n) # drop (Suc n) (split_parts clause)) ([] @ seen)"
    by (rule parse_attributes_loop_prefix [OF assms(2,3)]) simp
  also have "\<dots> = Inl (LanguageError ''Duplicate attribute name in attributes.''
                      (split_parts clause ! n))"
    using assms(5) by (simp add: assms(4))
  finally show ?thesis .
qed

lemma parse_attributes_loop_duplicate:
  "j < length parts \<Longrightarrow> \<forall>k<j. ATTR_RE_match (parts ! k) \<noteq> None \<Longrightarrow>
   ATTR_RE_match (parts ! j) = Some (name, e') \<Longrightarrow>
   name \<in> fst ` set attrs \<or> (\<exists>i<j. \<exists>e. ATTR_RE_match (parts ! i) = Some (name, e)) \<Longrightarrow>
   \<exists>j'\<le>j. parse_attributes_loop clause parts attrs
            = Inl (LanguageError ''Duplicate attribute name in attributes.'' (parts ! j'))"
proof (induction parts arbitrary: attrs j)
  case Nil
  then show ?case by simp
next
  case (Cons p ps)
  from Cons.prems(1,2,3) obtain n0 e0 where m: "ATTR_RE_match p = Some (n0, e0)"
    by (cases j) fastforce+
  show ?case
  proof (cases "n0 \<in> fst ` set attrs")
    case True
    with m have "parse_attributes_loop clause (p # ps) attrs
        = Inl (LanguageError ''Duplicate attribute name in attributes.'' ((p # ps) ! 0))" by simp
    then show ?thesis by blast
  next
    case False
    show ?thesis
    proof (cases j)
      case 0
      with Cons.prems(3,4) m False show ?thesis by simp
    next
      case (Suc j')
      from Cons.prems(1) Suc have 1: "j' < length ps" by simp
      from Cons.prems(2) Suc have 2: "\<forall>k<j'. ATTR_RE_match (ps ! k) \<noteq> None" by auto
      from Cons.prems(3) Suc have 3: "ATTR_RE_match (ps ! j') = Some (name, e')" by simp
      have 4: "name \<in> fst ` set (dict_set attrs n0 e0) \<or>
               (\<exists>i<j'. \<exists>e. ATTR_RE_match (ps ! i) = Some (name, e))"
      proof (cases "name \<in> fst ` set attrs")
        case True
        then show ?thesis by (simp add: dict_set_keys)
      next
        case False
        with Cons.prems(4) obtain i e where i: "i < j" "ATTR_RE_match ((p # ps) ! i) = Some (name, e)"
          by blast
        show ?thesis
        proof (cases i)
          case 0
          with i(2) m show ?thesis by (simp add: dict_set_keys)
        next
          case (Suc i')
          with i Suc \<open>j = Suc j'\<close> show ?thesis by auto
        qed
      qed
      from Cons.IH [OF 1 2 3 4] obtain j'' where j'': "j'' \<le> j'"
        "parse_attributes_loop clause ps (dict_set attrs n0 e0)
           = Inl (LanguageError ''Duplicate attribute name in attributes.'' (ps ! j''))" by blast
      from j''(2) m False have "parse_attributes_loop clause (p # ps) attrs
           = Inl (LanguageError ''Duplicate attribute name in attributes.'' ((p # ps) ! Suc j''))"
        by simp
      moreover from j''(1) Suc have "Suc j'' \<le> j" by simp
      ultimately show ?thesis by blast
    qed
  qed
qed

lemma attr_shape_length: "attr_shape part \<Longrightarrow> 3 \<le> length part"
proof -
  assume "attr_shape part"
  then obtain ws name ws' expr where p: "part = ws @ name @ ws' @ expr"
    and n: "name \<noteq> []" "ws' \<noteq> []" "expr \<noteq> []"
    unfolding attr_shape_def by blast
  from n have "1 \<le> length name" "1 \<le> length ws'" "1 \<le> length expr"
    by (simp_all add: Suc_le_eq)
  with p show ?thesis by simp
qed

text \<open>
  C8 (as the code has it). \<^verbatim>\<open>parse_attributes\<close> gives the pairs of name and expression of
  the parts, in the order of the parts, exactly when every part matches and no name is
  repeated; it raises \<^verbatim>\<open>LanguageError\<close> when a part has not the shape the specification
  describes; and when a name appears in two parts it raises \<^verbatim>\<open>LanguageError\<close> and never
  returns a mapping. The error is that of the first part at fault. When the parts before
  part \<open>k\<close> match with names that differ and part \<open>k\<close> does not match, it is the error for
  bad syntax, with the clause. When the parts before part \<open>n\<close> match with names that
  differ and part \<open>n\<close> matches with one of these names, it is the error for a duplicate
  name, with part \<open>n\<close>.
\<close>

theorem parse_attributes_errors:
  "parse_attributes ''class foo;id bar'' = Inr [(''class'', ''foo''), (''id'', ''bar'')] \<and>
   parse_attributes ''class foo;class bar''
     = Inl (LanguageError ''Duplicate attribute name in attributes.'' ''class bar'') \<and>
   parse_attributes [CHR ''a'', CHR 0x1F, CHR ''b''] = Inr [(''a'', ''b'')] \<and>
   ((\<exists>part\<in>set (split_parts clause). \<not> attr_shape part) \<longrightarrow>
      (\<exists>msg ctx. parse_attributes clause = Inl (LanguageError msg ctx))) \<and>
   (i < j \<and> j < length (split_parts clause) \<and>
    ATTR_RE_match (split_parts clause ! i) = Some (name, e) \<and>
    ATTR_RE_match (split_parts clause ! j) = Some (name, e') \<longrightarrow>
      (\<exists>msg ctx. parse_attributes clause = Inl (LanguageError msg ctx)) \<and>
      ((\<forall>k<j. ATTR_RE_match (split_parts clause ! k) \<noteq> None) \<longrightarrow>
         (\<exists>j'\<le>j. parse_attributes clause
                   = Inl (LanguageError ''Duplicate attribute name in attributes.''
                            (split_parts clause ! j'))))) \<and>
   (k < length (split_parts clause) \<and> ATTR_RE_match (split_parts clause ! k) = None \<and>
    map ATTR_RE_match (take k (split_parts clause)) = map Some pre \<and> distinct (map fst pre) \<longrightarrow>
      parse_attributes clause = Inl (LanguageError ''Bad syntax in attributes.'' clause)) \<and>
   (n < length (split_parts clause) \<and>
    map ATTR_RE_match (take n (split_parts clause)) = map Some seen \<and> distinct (map fst seen) \<and>
    ATTR_RE_match (split_parts clause ! n) = Some (nm, ex) \<and> nm \<in> fst ` set seen \<longrightarrow>
      parse_attributes clause
        = Inl (LanguageError ''Duplicate attribute name in attributes.'' (split_parts clause ! n))) \<and>
   (parse_attributes clause = Inr attrs \<longleftrightarrow>
      map ATTR_RE_match (split_parts clause) = map Some attrs \<and> distinct (map fst attrs))"
proof -
  have 1: "parse_attributes ''class foo;id bar'' = Inr [(''class'', ''foo''), (''id'', ''bar'')]"
    by code_simp
  have 2: "parse_attributes ''class foo;class bar''
     = Inl (LanguageError ''Duplicate attribute name in attributes.'' ''class bar'')"
    by code_simp
  have e3: "parse_attributes [CHR ''a'', CHR 0x1F, CHR ''b''] = Inr [(''a'', ''b'')]"
    by code_simp
  have 3: "(\<exists>part\<in>set (split_parts clause). \<not> attr_shape part) \<longrightarrow>
      (\<exists>msg ctx. parse_attributes clause = Inl (LanguageError msg ctx))"
  proof
    assume "\<exists>part\<in>set (split_parts clause). \<not> attr_shape part"
    then have "\<exists>part\<in>set (split_parts clause). ATTR_RE_match part = None"
      by (auto dest: ATTR_RE_match_shape)
    then show "\<exists>msg ctx. parse_attributes clause = Inl (LanguageError msg ctx)"
      unfolding parse_attributes_def by (rule parse_attributes_loop_bad_part)
  qed
  have 5: "parse_attributes clause = Inr attrs \<longrightarrow>
      map ATTR_RE_match (split_parts clause) = map Some attrs \<and> distinct (map fst attrs)"
    for attrs
    using parse_attributes_loop_Inr [of clause "split_parts clause" "[]" attrs]
    by (auto simp: parse_attributes_def)
  have 6: "map ATTR_RE_match (split_parts clause) = map Some attrs \<and> distinct (map fst attrs)
      \<longrightarrow> parse_attributes clause = Inr attrs"
    using parse_attributes_loop_ok [of "split_parts clause" attrs "[]" clause]
    by (simp add: parse_attributes_def)
  have 4: "i < j \<and> j < length (split_parts clause) \<and>
    ATTR_RE_match (split_parts clause ! i) = Some (name, e) \<and>
    ATTR_RE_match (split_parts clause ! j) = Some (name, e') \<longrightarrow>
      (\<exists>msg ctx. parse_attributes clause = Inl (LanguageError msg ctx)) \<and>
      ((\<forall>k<j. ATTR_RE_match (split_parts clause ! k) \<noteq> None) \<longrightarrow>
         (\<exists>j'\<le>j. parse_attributes clause
                   = Inl (LanguageError ''Duplicate attribute name in attributes.''
                            (split_parts clause ! j'))))"
  proof (intro impI, elim conjE)
    assume ij: "i < j" "j < length (split_parts clause)"
      and mi: "ATTR_RE_match (split_parts clause ! i) = Some (name, e)"
      and mj: "ATTR_RE_match (split_parts clause ! j) = Some (name, e')"
    have a: "\<exists>msg ctx. parse_attributes clause = Inl (LanguageError msg ctx)"
    proof (cases "parse_attributes clause")
      case (Inl err)
      with parse_attributes_loop_Inl [of clause "split_parts clause" "[]" err]
      show ?thesis by (auto simp: parse_attributes_def)
    next
      case (Inr res)
      with 5 [of res] have m: "map ATTR_RE_match (split_parts clause) = map Some res"
        and d: "distinct (map fst res)" by simp_all
      from m have l: "length res = length (split_parts clause)"
        by (metis length_map)
      from m ij l have "ATTR_RE_match (split_parts clause ! i) = Some (res ! i)"
        "ATTR_RE_match (split_parts clause ! j) = Some (res ! j)"
        by (metis nth_map order.strict_trans)+
      with mi mj have "fst (res ! i) = fst (res ! j)" by simp
      with ij l have "map fst res ! i = map fst res ! j" by simp
      moreover from ij l have "i < length (map fst res)" "j < length (map fst res)" by simp_all
      ultimately have "i = j" using d nth_eq_iff_index_eq [of "map fst res" i j] by blast
      with ij(1) have False by simp
      then show ?thesis ..
    qed
    have b: "(\<forall>k<j. ATTR_RE_match (split_parts clause ! k) \<noteq> None) \<longrightarrow>
         (\<exists>j'\<le>j. parse_attributes clause
                   = Inl (LanguageError ''Duplicate attribute name in attributes.''
                            (split_parts clause ! j')))"
    proof
      assume all: "\<forall>k<j. ATTR_RE_match (split_parts clause ! k) \<noteq> None"
      from ij(1) mi have "name \<in> fst ` set [] \<or>
          (\<exists>i<j. \<exists>e. ATTR_RE_match (split_parts clause ! i) = Some (name, e))" by blast
      from parse_attributes_loop_duplicate [OF ij(2) all mj this]
      show "\<exists>j'\<le>j. parse_attributes clause
                   = Inl (LanguageError ''Duplicate attribute name in attributes.''
                            (split_parts clause ! j'))"
        by (simp add: parse_attributes_def)
    qed
    from a b show "(\<exists>msg ctx. parse_attributes clause = Inl (LanguageError msg ctx)) \<and>
      ((\<forall>k<j. ATTR_RE_match (split_parts clause ! k) \<noteq> None) \<longrightarrow>
         (\<exists>j'\<le>j. parse_attributes clause
                   = Inl (LanguageError ''Duplicate attribute name in attributes.''
                            (split_parts clause ! j'))))" ..
  qed
  have 7: "k < length (split_parts clause) \<and> ATTR_RE_match (split_parts clause ! k) = None \<and>
    map ATTR_RE_match (take k (split_parts clause)) = map Some pre \<and> distinct (map fst pre) \<longrightarrow>
      parse_attributes clause = Inl (LanguageError ''Bad syntax in attributes.'' clause)"
    using parse_attributes_first_bad [of k clause pre] by blast
  have 8: "n < length (split_parts clause) \<and>
    map ATTR_RE_match (take n (split_parts clause)) = map Some seen \<and> distinct (map fst seen) \<and>
    ATTR_RE_match (split_parts clause ! n) = Some (nm, ex) \<and> nm \<in> fst ` set seen \<longrightarrow>
      parse_attributes clause
        = Inl (LanguageError ''Duplicate attribute name in attributes.'' (split_parts clause ! n))"
    using parse_attributes_first_duplicate [of n clause seen nm ex] by blast
  have 56: "parse_attributes clause = Inr attrs \<longleftrightarrow>
      map ATTR_RE_match (split_parts clause) = map Some attrs \<and> distinct (map fst attrs)"
    using 5 [of attrs] 6 by blast
  show ?thesis
    by (rule conjI [OF 1 conjI [OF 2 conjI [OF e3 conjI [OF 3 conjI [OF 4 conjI [OF 7
          conjI [OF 8 56]]]]]]])
qed

theorem parse_attributes_errors_witness:
  "(\<exists>part\<in>set (split_parts ''x;a 1''). \<not> attr_shape part) \<and>
   (\<exists>msg ctx. parse_attributes ''x;a 1'' = Inl (LanguageError msg ctx)) \<and>
   ATTR_RE_match (split_parts ''x;a 1'' ! 0) = None \<and>
   parse_attributes ''x;a 1'' = Inl (LanguageError ''Bad syntax in attributes.'' ''x;a 1'') \<and>
   ATTR_RE_match (split_parts ''a 1;b 2;a 3'' ! 0) = Some (''a'', ''1'') \<and>
   ATTR_RE_match (split_parts ''a 1;b 2;a 3'' ! 2) = Some (''a'', ''3'') \<and>
   (\<exists>j'\<le>2. parse_attributes ''a 1;b 2;a 3''
             = Inl (LanguageError ''Duplicate attribute name in attributes.''
                      (split_parts ''a 1;b 2;a 3'' ! j'))) \<and>
   map ATTR_RE_match (take 2 (split_parts ''a 1;b 2;a 3''))
     = map Some [(''a'', ''1''), (''b'', ''2'')] \<and>
   parse_attributes ''a 1;b 2;a 3''
     = Inl (LanguageError ''Duplicate attribute name in attributes.'' ''a 3'') \<and>
   parse_attributes ''class foo;id bar'' = Inr [(''class'', ''foo''), (''id'', ''bar'')] \<and>
   map ATTR_RE_match (split_parts ''class foo;id bar'') = map Some [(''class'', ''foo''), (''id'', ''bar'')]"
proof -
  have "\<not> attr_shape ''x''" using attr_shape_length [of "''x''"] by auto
  moreover have "''x'' \<in> set (split_parts ''x;a 1'')" by code_simp
  ultimately have 1: "\<exists>part\<in>set (split_parts ''x;a 1''). \<not> attr_shape part" by blast
  have 2: "ATTR_RE_match (split_parts ''a 1;b 2;a 3'' ! 0) = Some (''a'', ''1'')" by code_simp
  have 3: "ATTR_RE_match (split_parts ''a 1;b 2;a 3'' ! 2) = Some (''a'', ''3'')" by code_simp
  have 4: "length (split_parts ''a 1;b 2;a 3'') = 3" by code_simp
  have 5: "list_all (\<lambda>p. ATTR_RE_match p \<noteq> None) (split_parts ''a 1;b 2;a 3'')" by code_simp
  have 6: "\<forall>k<2. ATTR_RE_match (split_parts ''a 1;b 2;a 3'' ! k) \<noteq> None"
    using 5 4 by (simp add: list_all_length)
  have 7: "parse_attributes ''class foo;id bar'' = Inr [(''class'', ''foo''), (''id'', ''bar'')]"
    by code_simp
  have t: "map ATTR_RE_match (take 2 (split_parts ''a 1;b 2;a 3''))
     = map Some [(''a'', ''1''), (''b'', ''2'')]" by code_simp
  have p2: "split_parts ''a 1;b 2;a 3'' ! 2 = ''a 3''" by code_simp
  from parse_attributes_errors [where clause = "''x;a 1''"] 1
  have a: "\<exists>msg ctx. parse_attributes ''x;a 1'' = Inl (LanguageError msg ctx)" by blast
  from parse_attributes_errors [where clause = "''a 1;b 2;a 3''" and i = 0 and j = 2
      and name = "''a''" and e = "''1''" and e' = "''3''"] 2 3 4 6
  have b: "\<exists>j'\<le>2. parse_attributes ''a 1;b 2;a 3''
             = Inl (LanguageError ''Duplicate attribute name in attributes.''
                      (split_parts ''a 1;b 2;a 3'' ! j'))" by simp
  have n: "(2 :: nat) < length (split_parts ''a 1;b 2;a 3'') \<and>
    map ATTR_RE_match (take 2 (split_parts ''a 1;b 2;a 3''))
      = map Some [(''a'', ''1''), (''b'', ''2'')] \<and>
    distinct (map fst [(''a'', ''1''), (''b'', ''2'')]) \<and>
    ATTR_RE_match (split_parts ''a 1;b 2;a 3'' ! 2) = Some (''a'', ''3'') \<and>
    ''a'' \<in> fst ` set [(''a'', ''1''), (''b'', ''2'')]"
    using 3 4 t by simp
  from parse_attributes_errors [where clause = "''a 1;b 2;a 3''" and n = 2
      and seen = "[(''a'', ''1''), (''b'', ''2'')]" and nm = "''a''" and ex = "''3''"] n
  have "parse_attributes ''a 1;b 2;a 3''
     = Inl (LanguageError ''Duplicate attribute name in attributes.''
              (split_parts ''a 1;b 2;a 3'' ! 2))" by blast
  then have b': "parse_attributes ''a 1;b 2;a 3''
     = Inl (LanguageError ''Duplicate attribute name in attributes.'' ''a 3'')"
    by (simp only: p2)
  from parse_attributes_errors [where clause = "''class foo;id bar''"
      and attrs = "[(''class'', ''foo''), (''id'', ''bar'')]"] 7
  have c: "map ATTR_RE_match (split_parts ''class foo;id bar'')
             = map Some [(''class'', ''foo''), (''id'', ''bar'')]" by blast
  have 8: "ATTR_RE_match (split_parts ''x;a 1'' ! 0) = None" by code_simp
  have 9: "0 < length (split_parts ''x;a 1'')" by code_simp
  from parse_attributes_errors [where clause = "''x;a 1''" and k = 0 and pre = "[]"] 8 9
  have d: "parse_attributes ''x;a 1'' = Inl (LanguageError ''Bad syntax in attributes.'' ''x;a 1'')"
    by simp
  show ?thesis
    by (rule conjI [OF 1 conjI [OF a conjI [OF 8 conjI [OF d conjI [OF 2 conjI [OF 3
          conjI [OF b conjI [OF t conjI [OF b' conjI [OF 7 c]]]]]]]]]])
qed

text \<open>
  C8 as stated fails where a part before the repeated name does not match the grammar:
  the error raised is then the one for bad syntax, not the one for a duplicate name.
\<close>

theorem parse_attributes_duplicate_counterexample:
  "ATTR_RE_match (split_parts ''x;a 1;a 2'' ! 1) = Some (''a'', ''1'') \<and>
   ATTR_RE_match (split_parts ''x;a 1;a 2'' ! 2) = Some (''a'', ''2'') \<and>
   parse_attributes ''x;a 1;a 2'' = Inl (LanguageError ''Bad syntax in attributes.'' ''x;a 1;a 2'') \<and>
   parse_attributes ''x;a 1;a 2''
     \<noteq> Inl (LanguageError ''Duplicate attribute name in attributes.'' ''a 2'')"
proof -
  have 1: "ATTR_RE_match (split_parts ''x;a 1;a 2'' ! 1) = Some (''a'', ''1'')" by code_simp
  have 2: "ATTR_RE_match (split_parts ''x;a 1;a 2'' ! 2) = Some (''a'', ''2'')" by code_simp
  have 3: "parse_attributes ''x;a 1;a 2''
             = Inl (LanguageError ''Bad syntax in attributes.'' ''x;a 1;a 2'')" by code_simp
  from 1 2 3 show ?thesis by simp
qed

lemma parse_defines_loop_eq:
  "parse_defines_loop parts ds
     = map_option (\<lambda>new. ds @ map define_of new) (those (map DEFINE_RE_match parts))"
proof (induction parts arbitrary: ds)
  case Nil
  show ?case by simp
next
  case (Cons part parts)
  show ?case
  proof (cases "DEFINE_RE_match part")
    case None
    then show ?thesis by simp
  next
    case (Some g)
    obtain scope name expr where g: "g = (scope, name, expr)" by (cases g)
    show ?thesis
      by (simp add: Some g Cons.IH define_of_def Let_def option.map_comp comp_def)
  qed
qed

lemma those_None: "those xs = None \<longleftrightarrow> None \<in> set xs"
  by (induction xs) (auto split: option.splits)

lemma those_Some_length: "those xs = Some ys \<Longrightarrow> length ys = length xs"
  by (induction xs arbitrary: ys) (auto split: option.splits)

lemma str_strip_chars_idem: "str_strip_chars P (str_strip_chars P s) = str_strip_chars P s"
proof -
  let ?t = "dropWhile P s"
  let ?u = "rev (dropWhile P (rev ?t))"
  have t: "?t = ?u @ rev (takeWhile P (rev ?t))"
    by (metis rev_append rev_rev_ident takeWhile_dropWhile_id)
  have "dropWhile P ?u = ?u"
  proof (cases "?u = []")
    case True
    show ?thesis by (simp only: True dropWhile.simps)
  next
    case False
    with t have "hd ?u = hd ?t" by (metis hd_append2)
    moreover have "?t \<noteq> []"
    proof
      assume "?t = []"
      then have "?u = []" by (simp only: rev.simps dropWhile.simps)
      with False show False ..
    qed
    then have "\<not> P (hd ?t)" by (rule hd_dropWhile)
    ultimately show ?thesis using False by (simp add: dropWhile_eq_self_iff)
  qed
  then show ?thesis by (simp add: str_strip_chars_def)
qed

lemma str_strip_idem: "str_strip (str_strip s) = str_strip s"
  by (simp add: str_strip_def str_strip_chars_idem)

text \<open>
  C7 (as the code has it). \<^verbatim>\<open>parse_defines\<close> returns \<^verbatim>\<open>None\<close>, and raises nothing,
  when a part does not match \<^verbatim>\<open>DEFINE_RE\<close>; otherwise it returns one triple for each
  part, in order. The scope is \<^verbatim>\<open>local\<close> when the keyword is omitted. The names of the
  form in parentheses are split at the commas and stripped of whitespace, and they are a
  list; the name of the bare form is a tuple of one element.
\<close>

theorem parse_defines_result:
  "parse_defines clause
     = map_option (map define_of) (those (map DEFINE_RE_match (split_parts clause))) \<and>
   ((\<exists>part\<in>set (split_parts clause). re_match DEFINE_RE part = None) \<longrightarrow>
      parse_defines clause = None) \<and>
   ((\<forall>part\<in>set (split_parts clause). re_match DEFINE_RE part \<noteq> None) \<longrightarrow>
      (\<exists>ds. parse_defines clause = Some ds \<and> length ds = length (split_parts clause))) \<and>
   fst (define_of (None, name, expr)) = ''local'' \<and>
   (startswith name ''('' \<longrightarrow>
      (\<exists>ns. fst (snd (define_of (scope, name, expr))) = PyList ns \<and>
            ns = map str_strip (str_split CHR '','' (str_strip_chars (\<lambda>c. c \<in> set ''()'') name)) \<and>
            (\<forall>n\<in>set ns. str_strip n = n))) \<and>
   (\<not> startswith name ''('' \<longrightarrow> fst (snd (define_of (scope, name, expr))) = PyTuple [name]) \<and>
   parse_defines ''local x path1; global (a,b) path2''
     = Some [(''local'', PyTuple [''x''], ''path1''), (''global'', PyList [''a'', ''b''], ''path2'')] \<and>
   parse_defines [CHR ''('', CHR ''a'', CHR '','', CHR 0x1F, CHR ''b'', CHR '')'', CHR '' '', CHR ''z'']
     = Some [(''local'', PyList [''a'', ''b''], ''z'')]"
proof -
  have 1: "parse_defines clause
     = map_option (map define_of) (those (map DEFINE_RE_match (split_parts clause)))"
    by (simp add: parse_defines_def parse_defines_loop_eq)
  have 2: "(\<exists>part\<in>set (split_parts clause). re_match DEFINE_RE part = None) \<longrightarrow>
      parse_defines clause = None"
  proof
    assume "\<exists>part\<in>set (split_parts clause). re_match DEFINE_RE part = None"
    then obtain part where "part \<in> set (split_parts clause)" "DEFINE_RE_match part = None"
      by (auto simp: DEFINE_RE_match_None)
    then have "None \<in> DEFINE_RE_match ` set (split_parts clause)" by (metis image_eqI)
    then have "None \<in> set (map DEFINE_RE_match (split_parts clause))" by simp
    then show "parse_defines clause = None" by (simp add: 1 those_None)
  qed
  have 3: "(\<forall>part\<in>set (split_parts clause). re_match DEFINE_RE part \<noteq> None) \<longrightarrow>
      (\<exists>ds. parse_defines clause = Some ds \<and> length ds = length (split_parts clause))"
  proof
    assume "\<forall>part\<in>set (split_parts clause). re_match DEFINE_RE part \<noteq> None"
    then have "\<forall>part\<in>set (split_parts clause). DEFINE_RE_match part \<noteq> None"
      by (simp only: DEFINE_RE_match_None)
    then have "None \<notin> DEFINE_RE_match ` set (split_parts clause)" by (metis imageE)
    then have "None \<notin> set (map DEFINE_RE_match (split_parts clause))" by simp
    then obtain gs where gs: "those (map DEFINE_RE_match (split_parts clause)) = Some gs"
      using those_None [of "map DEFINE_RE_match (split_parts clause)"] by auto
    from those_Some_length [OF gs] gs
    show "\<exists>ds. parse_defines clause = Some ds \<and> length ds = length (split_parts clause)"
      by (simp add: 1)
  qed
  have 4: "fst (define_of (None, name, expr)) = ''local''"
    by (simp add: define_of_def)
  have 5: "startswith name ''('' \<longrightarrow>
      (\<exists>ns. fst (snd (define_of (scope, name, expr))) = PyList ns \<and>
            ns = map str_strip (str_split CHR '','' (str_strip_chars (\<lambda>c. c \<in> set ''()'') name)) \<and>
            (\<forall>n\<in>set ns. str_strip n = n))"
    by (auto simp: define_of_def str_strip_idem)
  have 6: "\<not> startswith name ''('' \<longrightarrow> fst (snd (define_of (scope, name, expr))) = PyTuple [name]"
    by (simp add: define_of_def)
  have 7: "parse_defines ''local x path1; global (a,b) path2''
     = Some [(''local'', PyTuple [''x''], ''path1''), (''global'', PyList [''a'', ''b''], ''path2'')]"
    by code_simp
  have 8: "parse_defines [CHR ''('', CHR ''a'', CHR '','', CHR 0x1F, CHR ''b'', CHR '')'', CHR '' '', CHR ''z'']
     = Some [(''local'', PyList [''a'', ''b''], ''z'')]"
    by code_simp
  show ?thesis
    by (rule conjI [OF 1 conjI [OF 2 conjI [OF 3 conjI [OF 4 conjI [OF 5 conjI [OF 6
          conjI [OF 7 8]]]]]]])
qed

theorem parse_defines_result_witness:
  "(\<exists>part\<in>set (split_parts ''x y; z''). re_match DEFINE_RE part = None) \<and>
   parse_defines ''x y; z'' = None \<and>
   list_all (\<lambda>part. re_match DEFINE_RE part \<noteq> None) (split_parts ''x y; (a, b) z'') \<and>
   (\<exists>ds. parse_defines ''x y; (a, b) z'' = Some ds \<and> length ds = length (split_parts ''x y; (a, b) z'')) \<and>
   startswith ''(a, b)'' ''('' \<and>
   fst (snd (define_of (None, ''(a, b)'', ''z''))) = PyList [''a'', ''b''] \<and>
   \<not> startswith ''x'' ''('' \<and>
   fst (snd (define_of (None, ''x'', ''y''))) = PyTuple [''x'']"
proof -
  have 1: "re_match DEFINE_RE '' z'' = None" by code_simp
  have 2: "'' z'' \<in> set (split_parts ''x y; z'')" by code_simp
  from 1 2 have 3: "\<exists>part\<in>set (split_parts ''x y; z''). re_match DEFINE_RE part = None" by blast
  have 4: "list_all (\<lambda>part. re_match DEFINE_RE part \<noteq> None) (split_parts ''x y; (a, b) z'')"
    by code_simp
  then have 5: "\<forall>part\<in>set (split_parts ''x y; (a, b) z''). re_match DEFINE_RE part \<noteq> None"
    by (simp only: list_all_iff)
  have 6: "startswith ''(a, b)'' ''(''" by code_simp
  have 7: "\<not> startswith ''x'' ''(''" by code_simp
  have 8: "map str_strip (str_split CHR '','' (str_strip_chars (\<lambda>c. c \<in> set ''()'') ''(a, b)''))
             = [''a'', ''b'']" by code_simp
  from parse_defines_result [where clause = "''x y; z''"] 3
  have a: "parse_defines ''x y; z'' = None" by blast
  from parse_defines_result [where clause = "''x y; (a, b) z''"] 5
  have b: "\<exists>ds. parse_defines ''x y; (a, b) z'' = Some ds \<and>
                length ds = length (split_parts ''x y; (a, b) z'')" by blast
  from parse_defines_result [where name = "''(a, b)''" and scope = None and expr = "''z''"] 6 8
  have c: "fst (snd (define_of (None, ''(a, b)'', ''z''))) = PyList [''a'', ''b'']" by auto
  from parse_defines_result [where name = "''x''" and scope = None and expr = "''y''"] 7
  have d: "fst (snd (define_of (None, ''x'', ''y''))) = PyTuple [''x'']" by blast
  from 3 a 4 b 6 c 7 d show ?thesis by blast
qed

text \<open>
  C7 as stated fails on its own example: the names of the second triple are the list
  \<^verbatim>\<open>["a", "b"]\<close>, which is not equal to the tuple \<^verbatim>\<open>("a", "b")\<close>.
\<close>

theorem parse_defines_tuple_counterexample:
  "parse_defines ''local x path1; global (a,b) path2''
     = Some [(''local'', PyTuple [''x''], ''path1''), (''global'', PyList [''a'', ''b''], ''path2'')] \<and>
   parse_defines ''local x path1; global (a,b) path2''
     \<noteq> Some [(''local'', PyTuple [''x''], ''path1''), (''global'', PyTuple [''a'', ''b''], ''path2'')]"
proof -
  have "parse_defines ''local x path1; global (a,b) path2''
     = Some [(''local'', PyTuple [''x''], ''path1''), (''global'', PyList [''a'', ''b''], ''path2'')]"
    by code_simp
  then show ?thesis by simp
qed

section \<open>Properties of \<open>prepare_attributes\<close>\<close>

lemma static_loop_dropped:
  "name \<in> dropped \<Longrightarrow> map_of (static_loop dropped attrs A) name = map_of A name"
  by (induction attrs arbitrary: A) (auto simp: Let_def map_of_dict_set)

lemma dynamic_loop_entry:
  assumes "map_of A name = None \<or> (\<exists>e. map_of A name = Some (None, [CHR 0x22], '' '', ''='', Some e))"
  shows "map_of (dynamic_loop dyn A) name
         = (case map_of (rev dyn) name of
              None \<Rightarrow> map_of A name
            | Some e \<Rightarrow> Some (None, [CHR 0x22], '' '', ''='', Some e))"
  using assms
proof (induction dyn arbitrary: A)
  case Nil
  then show ?case by simp
next
  case (Cons x dyn)
  obtain n e where x: "x = (n, e)" by (cases x)
  define t where "t = (case map_of A n of
                          Some (text, quote, space, eq, ignore) \<Rightarrow> (text, quote, space, eq)
                        | None \<Rightarrow> (None, [CHR 0x22], '' '', ''=''))"
  obtain a b c d where t: "t = (a, b, c, d)" by (cases t)
  define v where "v = (a, b, c, d, Some e)"
  have step: "dynamic_loop (x # dyn) A = dynamic_loop dyn (dict_set A n v)"
    by (simp add: x t_def [symmetric] t v_def)
  have v: "n = name \<longrightarrow> v = (None, [CHR 0x22], '' '', ''='', Some e)"
    using Cons.prems t by (auto simp: t_def v_def)
  have A': "map_of (dict_set A n v) name
              = (if n = name then Some (None, [CHR 0x22], '' '', ''='', Some e) else map_of A name)"
    using v by (simp add: map_of_dict_set)
  with Cons.prems
  have q: "map_of (dict_set A n v) name = None \<or>
           (\<exists>e. map_of (dict_set A n v) name = Some (None, [CHR 0x22], '' '', ''='', Some e))"
    by auto
  have r: "map_of (rev (x # dyn)) name
             = (case map_of (rev dyn) name of None \<Rightarrow> (if n = name then Some e else None)
                | Some e' \<Rightarrow> Some e')"
    by (auto simp: x map_add_def split: option.splits)
  show ?case
    unfolding step Cons.IH [OF q] r A'
    by (simp split: option.splits)
qed

lemma map_of_rev_distinct: "distinct (map fst xs) \<Longrightarrow> map_of (rev xs) = map_of xs"
  by (rule map_of_inject_set [THEN iffD2]) (simp_all add: distinct_rev rev_map [symmetric])

text \<open>
  C1 (as the code has it). A static attribute whose namespace is to be dropped (or which
  declares a namespace to be dropped) gives nothing of its own to the result: its name is
  in the result exactly when \<^verbatim>\<open>dyn_attributes\<close> has an expression for it, and then the
  entry is the one of an attribute that is only dynamic, with no static text and with
  the default quote, space and equals sign.
\<close>

theorem prepare_attributes_dropped:
  assumes "i < length attrs" and "i < length ns_attributes"
    and "fst (ns_attributes ! i) \<in> drop_ns \<or>
         (fst (ns_attributes ! i) = XMLNS_NS \<and> attr_value (attrs ! i) \<in> drop_ns)"
    and "distinct (map fst dyn_attributes)"
  shows "map_of (prepare_attributes XMLNS_NS attrs dyn_attributes ns_attributes drop_ns)
           (attr_name (attrs ! i))
         = (case map_of dyn_attributes (attr_name (attrs ! i)) of
              None \<Rightarrow> None
            | Some expr \<Rightarrow> Some (None, [CHR 0x22], '' '', ''='', Some expr)) \<and>
         (attr_name (attrs ! i) \<in> fst ` set (prepare_attributes XMLNS_NS attrs dyn_attributes ns_attributes drop_ns)
            \<longleftrightarrow> attr_name (attrs ! i) \<in> fst ` set dyn_attributes)"
proof -
  define dropped where "dropped = set (map (\<lambda>(attribute, (ns, value)). attr_name attribute)
                      (filter (\<lambda>(attribute, (ns, value)).
                                 ns \<in> drop_ns \<or>
                                 (ns = XMLNS_NS \<and> attr_value attribute \<in> drop_ns))
                         (zip attrs ns_attributes)))"
  have p: "prepare_attributes XMLNS_NS attrs dyn_attributes ns_attributes drop_ns
             = dynamic_loop dyn_attributes (static_loop dropped attrs [])"
    by (simp only: prepare_attributes_def Let_def dropped_def)
  from assms(1,2) have "(attrs ! i, ns_attributes ! i) \<in> set (zip attrs ns_attributes)"
    by (auto simp: in_set_zip)
  with assms(3) have d: "attr_name (attrs ! i) \<in> dropped"
    unfolding dropped_def by (cases "ns_attributes ! i") force
  from static_loop_dropped [OF d, of attrs "[]"]
  have s: "map_of (static_loop dropped attrs []) (attr_name (attrs ! i)) = None" by simp
  then have "map_of (static_loop dropped attrs []) (attr_name (attrs ! i)) = None \<or>
    (\<exists>e. map_of (static_loop dropped attrs []) (attr_name (attrs ! i))
            = Some (None, [CHR 0x22], '' '', ''='', Some e))" ..
  from dynamic_loop_entry [OF this, of dyn_attributes] s
  have m: "map_of (prepare_attributes XMLNS_NS attrs dyn_attributes ns_attributes drop_ns)
           (attr_name (attrs ! i))
         = (case map_of dyn_attributes (attr_name (attrs ! i)) of
              None \<Rightarrow> None
            | Some expr \<Rightarrow> Some (None, [CHR 0x22], '' '', ''='', Some expr))"
    by (simp only: p map_of_rev_distinct [OF assms(4)])
  have "attr_name (attrs ! i) \<in> fst ` set (prepare_attributes XMLNS_NS attrs dyn_attributes ns_attributes drop_ns)
            \<longleftrightarrow> attr_name (attrs ! i) \<in> fst ` set dyn_attributes"
    using m map_of_eq_None_iff [of dyn_attributes "attr_name (attrs ! i)"]
      map_of_eq_None_iff [of "prepare_attributes XMLNS_NS attrs dyn_attributes ns_attributes drop_ns"
        "attr_name (attrs ! i)"]
    by (auto split: option.splits)
  with m show ?thesis ..
qed

theorem prepare_attributes_dropped_witness:
  "fst ([(''ns1'', ''v'')] ! 0) \<in> {''ns1''} \<and> distinct (map fst [(''a'', ''e'')]) \<and>
   map_of (prepare_attributes ''xmlns''
             [\<lparr>attr_name = ''a'', attr_value = ''v'', attr_quote = [CHR 0x27],
               attr_space = '' '', attr_eq = '' = ''\<rparr>]
             [(''a'', ''e'')] [(''ns1'', ''v'')] {''ns1''}) ''a''
     = Some (None, [CHR 0x22], '' '', ''='', Some ''e'') \<and>
   map_of (prepare_attributes ''xmlns''
             [\<lparr>attr_name = ''a'', attr_value = ''v'', attr_quote = [CHR 0x27],
               attr_space = '' '', attr_eq = '' = ''\<rparr>]
             [] [(''ns1'', ''v'')] {''ns1''}) ''a'' = None"
  using prepare_attributes_dropped
    [where i = 0 and XMLNS_NS = "''xmlns''" and drop_ns = "{''ns1''}"
       and attrs = "[\<lparr>attr_name = ''a'', attr_value = ''v'', attr_quote = [CHR 0x27],
               attr_space = '' '', attr_eq = '' = ''\<rparr>]"
       and ns_attributes = "[(''ns1'', ''v'')]" and dyn_attributes = "[(''a'', ''e'')]"]
    prepare_attributes_dropped
    [where i = 0 and XMLNS_NS = "''xmlns''" and drop_ns = "{''ns1''}"
       and attrs = "[\<lparr>attr_name = ''a'', attr_value = ''v'', attr_quote = [CHR 0x27],
               attr_space = '' '', attr_eq = '' = ''\<rparr>]"
       and ns_attributes = "[(''ns1'', ''v'')]" and dyn_attributes = "[]"]
  by simp

text \<open>
  C1 as stated fails: the name of an attribute in a dropped namespace is in the result
  when \<^verbatim>\<open>dyn_attributes\<close> has an expression for that name.
\<close>

theorem prepare_attributes_dropped_counterexample:
  "fst ([(''ns1'', ''v'')] ! 0) \<in> {''ns1''} \<and>
   prepare_attributes ''xmlns''
     [\<lparr>attr_name = ''a'', attr_value = ''v'', attr_quote = [CHR 0x27],
       attr_space = '' '', attr_eq = '' = ''\<rparr>]
     [(''a'', ''e'')] [(''ns1'', ''v'')] {''ns1''}
     = [(''a'', None, [CHR 0x22], '' '', ''='', Some ''e'')] \<and>
   ''a'' \<in> fst ` set (prepare_attributes ''xmlns''
     [\<lparr>attr_name = ''a'', attr_value = ''v'', attr_quote = [CHR 0x27],
       attr_space = '' '', attr_eq = '' = ''\<rparr>]
     [(''a'', ''e'')] [(''ns1'', ''v'')] {''ns1''})"
  by (simp add: prepare_attributes_def)

section \<open>Properties of the repeat runtime\<close>

lemma letter_loop_last:
  "radix \<noteq> 0 \<Longrightarrow> chr (base + i mod radix) = Inr c \<Longrightarrow> i div radix = 0 \<Longrightarrow>
   letter_loop base radix i s = Some (Inr (c # s))"
  by (subst letter_loop.simps) simp

lemma letter_loop_more:
  "radix \<noteq> 0 \<Longrightarrow> chr (base + i mod radix) = Inr c \<Longrightarrow> i div radix \<noteq> 0 \<Longrightarrow>
   letter_loop base radix i s = letter_loop base radix (i div radix) (c # s)"
  by (subst letter_loop.simps) simp

lemma chr_letters:
  "chr 97 = Inr CHR ''a''" "chr 98 = Inr CHR ''b''" "chr 100 = Inr CHR ''d''"
  by (simp_all add: chr_def char_of_def)

lemma ord_letters: "ord CHR ''a'' = 97" "ord CHR ''A'' = 65"
  by (simp_all add: ord_def)

text \<open>
  The loop of \<^verbatim>\<open>_letter\<close> returns for every position \<open>0 \<le> i\<close> when the radix is 26
  and the base is that of the lower-case or of the upper-case letters.
\<close>

lemma letter_loop_returns:
  assumes "0 \<le> i" and "0 \<le> base" and "base + 25 < 256"
  shows "\<exists>t. letter_loop base 26 i s = Some (Inr t)"
  using assms(1)
proof (induction "nat i" arbitrary: i s rule: less_induct)
  case less
  have r: "0 \<le> i mod 26" "i mod 26 < 26" by simp_all
  with assms(2,3) have c: "chr (base + i mod 26) = Inr (char_of (base + i mod 26))"
    by (simp add: chr_def)
  show ?case
  proof (cases "i div 26 = 0")
    case True
    with c show ?thesis by (simp add: letter_loop_last)
  next
    case False
    from less.prems have d: "0 \<le> i div 26" by simp
    have "0 < i \<and> i div 26 < i" using False less.prems by presburger
    then have "nat (i div 26) < nat i" by simp
    from less.hyps [OF this d] obtain t
      where "letter_loop base 26 (i div 26) (char_of (base + i mod 26) # s) = Some (Inr t)"
      by blast
    with c False show ?thesis by (simp add: letter_loop_more)
  qed
qed

lemma letter_returns: "0 \<le> index st self \<Longrightarrow> \<exists>t. letter st self = Some (Inr t)"
  using letter_loop_returns [of "index st self" 97 "[]"]
  by (simp add: letter_def descriptorstr_def letter_base_def ord_letters)

lemma Letter_returns: "0 \<le> index st self \<Longrightarrow> \<exists>t. Letter st self = Some (Inr t)"
  using letter_loop_returns [of "index st self" 65 "[]"]
  by (simp add: Letter_def descriptorstr_def letter_base_def ord_letters)

lemma letter_loop_0: "letter_loop 97 26 0 s = Some (Inr (CHR ''a'' # s))"
  by (rule letter_loop_last) (simp_all add: chr_letters)

lemma letter_loop_1: "letter_loop 97 26 1 s = Some (Inr (CHR ''b'' # s))"
  by (rule letter_loop_last) (simp_all add: chr_letters)

lemma letter_loop_3: "letter_loop 97 26 3 s = Some (Inr (CHR ''d'' # s))"
  by (rule letter_loop_last) (simp_all add: chr_letters)

lemma letter_loop_26: "letter_loop 97 26 26 s = Some (Inr (CHR ''b'' # CHR ''a'' # s))"
  by (subst letter_loop_more [where c = "CHR ''a''"]) (simp_all add: letter_loop_1 chr_letters)

lemma Roman_loop_1: "Roman_loop rnvalues 1 '''' = Inr ''I''"
  by (simp add: rnvalues_def str_mul_def)

lemma Roman_loop_4: "Roman_loop rnvalues 4 '''' = Inr ''IV''"
  by (simp add: rnvalues_def str_mul_def)

text \<open>
  C2 (as the code has it). A \<^verbatim>\<open>RepeatItem\<close> whose index is negative has no letter: reading
  \<^verbatim>\<open>letter\<close> or \<^verbatim>\<open>Letter\<close> raises \<^verbatim>\<open>TypeError("No iteration position")\<close>.
\<close>

theorem letter_negative_index_TypeError:
  "index st self < 0 \<Longrightarrow>
     letter st self = Some (Inl (TypeError ''No iteration position'')) \<and>
     Letter st self = Some (Inl (TypeError ''No iteration position''))"
  by (simp add: letter_def Letter_def descriptorstr_def letter_base_def)

theorem letter_negative_index_TypeError_witness:
  "index (snd (iter (empty_state :: nat state) [7, 8, 9])) \<lparr>length_ri = 3, iterator_ri = 0\<rparr> < 0 \<and>
   letter (snd (iter (empty_state :: nat state) [7, 8, 9])) \<lparr>length_ri = 3, iterator_ri = 0\<rparr>
     = Some (Inl (TypeError ''No iteration position'')) \<and>
   Letter (snd (iter (empty_state :: nat state) [7, 8, 9])) \<lparr>length_ri = 3, iterator_ri = 0\<rparr>
     = Some (Inl (TypeError ''No iteration position''))"
  using letter_negative_index_TypeError
    [where st = "snd (iter (empty_state :: nat state) [7, 8, 9])"
       and self = "\<lparr>length_ri = 3, iterator_ri = 0\<rparr>"]
  by (simp add: index_def iter_def empty_state_def)

text \<open>
  C2 as stated fails: over an empty sequence (length 0) the index is \<open>-1\<close> and the error
  raised is a \<^verbatim>\<open>TypeError\<close>, not a \<^verbatim>\<open>ValueError\<close>.
\<close>

theorem letter_ValueError_counterexample:
  "index (empty_state :: nat state) \<lparr>length_ri = 0, iterator_ri = 0\<rparr> = - 1 \<and>
   letter (empty_state :: nat state) \<lparr>length_ri = 0, iterator_ri = 0\<rparr>
     = Some (Inl (TypeError ''No iteration position'')) \<and>
   letter (empty_state :: nat state) \<lparr>length_ri = 0, iterator_ri = 0\<rparr>
     \<noteq> Some (Inl (ValueError ''No iteration position''))"
  by (simp add: letter_def descriptorstr_def letter_base_def index_def empty_state_def)

text \<open>
  C3. A \<^verbatim>\<open>RepeatItem\<close> of length 4 over a cursor on a 4-element tuple, the cursor
  advanced from outside: the properties after one advancement and after four; the letter
  at index 26 is \<^verbatim>\<open>ba\<close>; and the index is computed from the cursor's remaining count at
  each read.
\<close>

theorem RepeatItem_positions:
  "(case iter st [a, b, c, d] of (cur, st0) \<Rightarrow>
      let self = \<lparr>length_ri = 4, iterator_ri = cur\<rparr>;
          st1 = snd (cursor_next st0 cur);
          st2 = snd (cursor_next st1 cur);
          st3 = snd (cursor_next st2 cur);
          st4 = snd (cursor_next st3 cur)
      in index st1 self = 0 \<and> start st1 self \<and> \<not> end_ri st1 self \<and> number st1 self = 1 \<and>
         odd_ri st1 self = '''' \<and> even_ri st1 self = ''even'' \<and>
         letter st1 self = Some (Inr ''a'') \<and> Roman st1 self = Inr ''I'' \<and>
         index st4 self = 3 \<and> end_ri st4 self \<and>
         letter st4 self = Some (Inr ''d'') \<and> Roman st4 self = Inr ''IV'') \<and>
   (index st' self' = 26 \<longrightarrow> letter st' self' = Some (Inr ''ba'')) \<and>
   index st' self' = length_ri self' - int (length (cursors st' (iterator_ri self'))) - 1"
proof -
  have scenario: "(case iter st [a, b, c, d] of (cur, st0) \<Rightarrow>
      let self = \<lparr>length_ri = 4, iterator_ri = cur\<rparr>;
          st1 = snd (cursor_next st0 cur);
          st2 = snd (cursor_next st1 cur);
          st3 = snd (cursor_next st2 cur);
          st4 = snd (cursor_next st3 cur)
      in index st1 self = 0 \<and> start st1 self \<and> \<not> end_ri st1 self \<and> number st1 self = 1 \<and>
         odd_ri st1 self = '''' \<and> even_ri st1 self = ''even'' \<and>
         letter st1 self = Some (Inr ''a'') \<and> Roman st1 self = Inr ''I'' \<and>
         index st4 self = 3 \<and> end_ri st4 self \<and>
         letter st4 self = Some (Inr ''d'') \<and> Roman st4 self = Inr ''IV'')"
    by (simp add: iter_def cursor_next_def index_def start_def end_ri_def number_def
        odd_ri_def even_ri_def letter_def letter_base_def Roman_def ord_letters
        descriptorint_def descriptorstr_def
        letter_loop_0 letter_loop_3 Roman_loop_1 Roman_loop_4)
  have ba: "index st' self' = 26 \<longrightarrow> letter st' self' = Some (Inr ''ba'')"
    by (simp add: letter_def descriptorstr_def letter_base_def ord_letters letter_loop_26)
  have idx: "index st' self' = length_ri self' - int (length (cursors st' (iterator_ri self'))) - 1"
    by (simp add: index_def)
  from scenario ba idx show ?thesis by blast
qed

theorem RepeatItem_positions_witness:
  "index (empty_state :: nat state) \<lparr>length_ri = 27, iterator_ri = 0\<rparr> = 26 \<and>
   letter (empty_state :: nat state) \<lparr>length_ri = 27, iterator_ri = 0\<rparr> = Some (Inr ''ba'')"
  using RepeatItem_positions
    [where st = "empty_state :: nat state" and a = 1 and b = 2 and c = 3 and d = 4
       and st' = "empty_state :: nat state" and self' = "\<lparr>length_ri = 27, iterator_ri = 0\<rparr>"]
  by (simp add: index_def empty_state_def)

text \<open>
  C4. After a registration of a key, two lookups in a row return the same
  \<^verbatim>\<open>RepeatItem\<close> instance: the first lookup creates it from the stored cursor and length
  and stores it in the entry, the second finds it there and changes nothing. Registering
  the key again stores a new cursor and length with no instance, and the next lookup
  creates another instance from them.
\<close>

theorem RepeatDict_lookup_cached:
  assumes "\<not> is_PyNonIterable v" and "\<not> is_PyNonIterable v'"
  shows
  "(case RepeatDict_call st key v of (reg1, st1) \<Rightarrow>
    case RepeatDict_getitem st1 key of (look1, st2) \<Rightarrow>
    case RepeatDict_getitem st2 key of (look2, st3) \<Rightarrow>
    case RepeatDict_call st3 key v' of (reg2, st4) \<Rightarrow>
    case RepeatDict_getitem st4 key of (look3, st5) \<Rightarrow>
      (\<exists>cur len r cur' len' r'.
         len = int (length (elements v)) \<and>
         len' = int (length (elements v')) \<and>
         reg1 = Inr (cur, len) \<and>
         dict st1 key = Some (cur, len, None) \<and>
         look1 = Inr r \<and>
         items st2 r = Some \<lparr>length_ri = len, iterator_ri = cur\<rparr> \<and>
         dict st2 key = Some (cur, len, Some r) \<and>
         look2 = Inr r \<and> st3 = st2 \<and>
         reg2 = Inr (cur', len') \<and> cur' \<noteq> cur \<and>
         cursors st4 cur' = elements v' \<and>
         dict st4 key = Some (cur', len', None) \<and>
         look3 = Inr r' \<and> r' \<noteq> r \<and>
         items st5 r' = Some \<lparr>length_ri = len', iterator_ri = cur'\<rparr> \<and>
         items st5 r = Some \<lparr>length_ri = len, iterator_ri = cur\<rparr> \<and>
         dict st5 key = Some (cur', len', Some r')))"
  using assms
  by (cases v; cases v')
     (simp_all add: RepeatDict_call_def RepeatDict_getitem_def tuple_def iter_def
        RepeatItem_init_def Let_def)

theorem RepeatDict_lookup_cached_witness:
  "\<not> is_PyNonIterable (PyIterable ''list'' [1, 2, 3 :: nat]) \<and> \<not> is_PyNonIterable (PyNone :: nat pyobject) \<and>
   (case RepeatDict_call empty_state ''x'' (PyIterable ''list'' [1, 2, 3 :: nat]) of (reg1, st1) \<Rightarrow>
    case RepeatDict_getitem st1 ''x'' of (look1, st2) \<Rightarrow>
    case RepeatDict_getitem st2 ''x'' of (look2, st3) \<Rightarrow>
    case RepeatDict_call st3 ''x'' PyNone of (reg2, st4) \<Rightarrow>
    case RepeatDict_getitem st4 ''x'' of (look3, st5) \<Rightarrow>
      reg1 = Inr (0, 3) \<and> look1 = Inr 0 \<and> look2 = Inr 0 \<and> st3 = st2 \<and>
      reg2 = Inr (1, 0) \<and> look3 = Inr 1 \<and>
      items st5 1 = Some \<lparr>length_ri = 0, iterator_ri = 1\<rparr>)"
  using RepeatDict_lookup_cached
    [where v = "PyIterable ''list'' [1, 2, 3 :: nat]" and v' = "PyNone :: nat pyobject"
       and st = empty_state and key = "''x''"]
  by (simp add: RepeatDict_call_def RepeatDict_getitem_def tuple_def iter_def
        RepeatItem_init_def Let_def empty_state_def)

text \<open>
  C9. Registering a value that is neither iterable nor \<^verbatim>\<open>None\<close> raises
  \<^verbatim>\<open>TypeError\<close> and leaves the state as it was: the entry of the key, with its cached
  \<^verbatim>\<open>RepeatItem\<close>, is still there and a lookup still returns that instance.
\<close>

theorem RepeatDict_call_not_iterable:
  "RepeatDict_call st key (PyNonIterable tn) =
     (Inl (TypeError (repr tn @ '' object is not iterable'')), st) \<and>
   RepeatDict_getitem (snd (RepeatDict_call st key (PyNonIterable tn))) key
     = RepeatDict_getitem st key \<and>
   (dict st key = Some (cur, len, Some r) \<longrightarrow>
      dict (snd (RepeatDict_call st key (PyNonIterable tn))) key = Some (cur, len, Some r) \<and>
      RepeatDict_getitem (snd (RepeatDict_call st key (PyNonIterable tn))) key = (Inr r, st))"
  by (simp add: RepeatDict_call_def tuple_def RepeatDict_getitem_def)

theorem RepeatDict_call_not_iterable_witness:
  "dict (snd (RepeatDict_getitem (snd (RepeatDict_call empty_state ''x'' (PyIterable ''list'' [1, 2, 3 :: nat]))) ''x'')) ''x''
     = Some (0, 3, Some 0) \<and>
   RepeatDict_getitem
     (snd (RepeatDict_call
        (snd (RepeatDict_getitem (snd (RepeatDict_call empty_state ''x'' (PyIterable ''list'' [1, 2, 3 :: nat]))) ''x''))
        ''x'' (PyNonIterable ''int''))) ''x''
     = (Inr 0, snd (RepeatDict_getitem (snd (RepeatDict_call empty_state ''x'' (PyIterable ''list'' [1, 2, 3 :: nat]))) ''x''))"
  using RepeatDict_call_not_iterable
    [where st = "snd (RepeatDict_getitem (snd (RepeatDict_call empty_state ''x'' (PyIterable ''list'' [1, 2, 3 :: nat]))) ''x'')"
       and key = "''x''" and tn = "''int''" and cur = 0 and len = 3 and r = 0]
  by (simp add: RepeatDict_call_def RepeatDict_getitem_def tuple_def iter_def
        RepeatItem_init_def Let_def empty_state_def)


end
